theory Spec2Isabelle
  imports Main
begin

section \<open>Python strings\<close>

text \<open>
  A Python \<^verbatim>\<open>str\<close> is a sequence of Unicode code points, and \<^verbatim>\<open>len\<close> counts code
  points. A string is therefore a list of code points; \<open>str_of\<close> writes an ASCII literal.
\<close>

type_synonym pystr = "nat list"

definition str_of :: "string \<Rightarrow> pystr" where
  "str_of s = map of_char s"

definition space :: nat where
  "space = 32"

text \<open>
  The characters \<^verbatim>\<open>str.strip()\<close> and \<^verbatim>\<open>str.split()\<close> (both without argument) treat as
  whitespace: U+0009..U+000D, U+001C..U+0020, U+0085, U+00A0, U+1680, U+2000..U+200A,
  U+2028, U+2029, U+202F, U+205F and U+3000.
\<close>

definition isspace :: "nat \<Rightarrow> bool" where
  "isspace c \<longleftrightarrow>
     (9 \<le> c \<and> c \<le> 13) \<or> (28 \<le> c \<and> c \<le> 32) \<or> c = 133 \<or> c = 160 \<or> c = 5760 \<or>
     (8192 \<le> c \<and> c \<le> 8202) \<or> c = 8232 \<or> c = 8233 \<or> c = 8239 \<or> c = 8287 \<or> c = 12288"

text \<open>\<^verbatim>\<open>s.strip()\<close>: leading and trailing whitespace removed.\<close>

definition strip :: "pystr \<Rightarrow> pystr" where
  "strip s = rev (dropWhile isspace (rev (dropWhile isspace s)))"

text \<open>
  \<^verbatim>\<open>s.split(sep)\<close> for a separator of one character: the string is cut at every
  separator; two separators in a row, a leading or a trailing one give an empty piece,
  and the empty string gives \<^verbatim>\<open>['']\<close>. \<open>cur\<close> is the piece being scanned.
  \<open>split_sp\<close> is \<^verbatim>\<open>text.split(' ')\<close>.
\<close>

fun split_acc :: "nat \<Rightarrow> pystr \<Rightarrow> pystr \<Rightarrow> pystr list" where
  "split_acc sep cur [] = [cur]"
| "split_acc sep cur (c # cs) =
     (if c = sep then cur # split_acc sep [] cs else split_acc sep (cur @ [c]) cs)"

definition split_sp :: "pystr \<Rightarrow> pystr list" where
  "split_sp text = split_acc space [] text"

section \<open>The chunker\<close>

text \<open>
  \<^verbatim>\<open>
  def chunk_text(text, chunk_size=512):
      words = text.split(' ')
      chunks = []
      chunk = ''
      for word in words:
          if (len(chunk) + len(word)) <= chunk_size:
              chunk += f'{word} '
          else:
              chunks.append(chunk.strip())
              chunk = f'{word} '
      if chunk:
          chunks.append(chunk.strip())
      return chunks
  \<close>
  \<open>chunk_loop\<close> is the \<^verbatim>\<open>for\<close> loop, with the two variables it updates; the limit is a
  Python integer.
\<close>

fun chunk_loop :: "int \<Rightarrow> pystr list \<Rightarrow> pystr list \<Rightarrow> pystr \<Rightarrow> pystr list \<times> pystr" where
  "chunk_loop chunk_size [] chunks chunk = (chunks, chunk)"
| "chunk_loop chunk_size (word # words) chunks chunk =
     (if int (length chunk) + int (length word) \<le> chunk_size
      then chunk_loop chunk_size words chunks (chunk @ word @ [space])
      else chunk_loop chunk_size words (chunks @ [strip chunk]) (word @ [space]))"

definition chunk_text :: "pystr \<Rightarrow> int \<Rightarrow> pystr list" where
  "chunk_text text chunk_size =
     (let words = split_sp text;
          (chunks, chunk) = chunk_loop chunk_size words [] []
      in if chunk \<noteq> [] then chunks @ [strip chunk] else chunks)"

section \<open>The chunks as groups of words\<close>

text \<open>
  For the proofs, the loop is read a second time on lists of words instead of strings:
  \<open>buf g\<close> is the buffer \<^verbatim>\<open>chunk\<close> holding the words \<open>g\<close>, each followed by its space,
  and \<open>group_loop\<close> takes the decisions of \<open>chunk_loop\<close> on these buffers. Lemma
  \<open>chunk_text_groups\<close> below shows that the chunks are the stripped buffers of these
  groups.
\<close>

definition buf :: "pystr list \<Rightarrow> pystr" where
  "buf g = concat (map (\<lambda>w. w @ [space]) g)"

fun group_loop :: "int \<Rightarrow> pystr list \<Rightarrow> pystr list list \<Rightarrow> pystr list \<Rightarrow> pystr list list \<times> pystr list" where
  "group_loop n [] gs g = (gs, g)"
| "group_loop n (w # ws) gs g =
     (if int (length (buf g)) + int (length w) \<le> n
      then group_loop n ws gs (g @ [w])
      else group_loop n ws (gs @ [g]) [w])"

definition chunk_groups :: "pystr \<Rightarrow> int \<Rightarrow> pystr list list" where
  "chunk_groups text n =
     (case group_loop n (split_sp text) [] [] of
        (gs, g) \<Rightarrow> if g \<noteq> [] then gs @ [g] else gs)"

section \<open>Re-joining chunks, and words separated by whitespace\<close>

text \<open>
  The spec's words, not code of the repository: \<open>join_sp\<close> is \<^verbatim>\<open>' '.join(chunks)\<close> and
  \<open>ws_words\<close> the whitespace-normalised word sequence of a text, \<^verbatim>\<open>text.split()\<close>: the
  maximal runs of characters that are not whitespace.
\<close>

fun join_sp :: "pystr list \<Rightarrow> pystr" where
  "join_sp [] = []"
| "join_sp [c] = c"
| "join_sp (c # d # cs) = c @ [space] @ join_sp (d # cs)"

fun ws_acc :: "pystr \<Rightarrow> pystr \<Rightarrow> pystr list" where
  "ws_acc cur [] = (if cur = [] then [] else [cur])"
| "ws_acc cur (c # cs) =
     (if isspace c then (if cur = [] then ws_acc [] cs else cur # ws_acc [] cs)
      else ws_acc (cur @ [c]) cs)"

definition ws_words :: "pystr \<Rightarrow> pystr list" where
  "ws_words t = ws_acc [] t"

section \<open>The outside world\<close>

text \<open>
  The script talks to the vector store, the model hub, the model and the file system.
  Every such call is an event of a trace, in the order the calls are made, and what a
  call answers is given by an environment: a function of the trace up to and including
  the call, so that an answer may depend on every call made before. A call either
  raises (\<open>Inl\<close>, an exception that \<^verbatim>\<open>except Exception\<close> catches, with the text
  \<^verbatim>\<open>str(e)\<close>) or returns (\<open>Inr\<close>). The type \<open>'f\<close> stands for Python's floats, of which
  nothing is used.

  A \<^verbatim>\<open>print\<close> is an event too. The prints of the directory walker write what the file
  system gave, a file name or the text of an exception, and may raise (a name the
  standard output cannot encode, for one): \<open>ext_print\<close> answers them. The prints of the
  provisioning, of \<^verbatim>\<open>store_in_pinecone\<close> and of \<^verbatim>\<open>search_in_pinecone\<close> are taken to
  return; an id that \<^verbatim>\<open>store_in_pinecone\<close> prints holds a file name that the walker has
  printed before.
\<close>

datatype exn = Exn pystr

fun exn_str :: "exn \<Rightarrow> pystr" where
  "exn_str (Exn msg) = msg"

text \<open>A match of a query: its score as the f-string prints it, and its metadata text.\<close>

record match =
  score :: pystr
  metadata_text :: pystr

datatype 'f event =
    PineconeClient "pystr option"
  | ListIndexes
  | CreateIndex "pystr option" nat pystr pystr "pystr option"
  | HfLogin pystr
  | LoadTokenizer pystr
  | LoadModel pystr
  | Embed pystr
  | OpenIndex "pystr option"
  | Upsert pystr "'f list" pystr
  | Query "'f list" nat
  | ListDir pystr
  | ReadFile pystr
  | Print pystr

text \<open>
  The four environment variables are what \<^verbatim>\<open>os.getenv\<close> returns (\<open>None\<close> when unset);
  the other fields answer the external calls.
\<close>

record 'f env =
  api_key :: "pystr option"
  environment :: "pystr option"
  index_name :: "pystr option"
  hf_token :: "pystr option"
  ext_client :: "'f event list \<Rightarrow> exn + unit"
  ext_list_indexes :: "'f event list \<Rightarrow> exn + pystr list"
  ext_create_index :: "'f event list \<Rightarrow> exn + unit"
  ext_login :: "'f event list \<Rightarrow> exn + unit"
  ext_tokenizer :: "'f event list \<Rightarrow> exn + unit"
  ext_model :: "'f event list \<Rightarrow> exn + unit"
  ext_embed :: "'f event list \<Rightarrow> exn + 'f list"
  ext_index :: "'f event list \<Rightarrow> exn + unit"
  ext_upsert :: "'f event list \<Rightarrow> exn + unit"
  ext_query :: "'f event list \<Rightarrow> exn + match list"
  ext_listdir :: "'f event list \<Rightarrow> exn + pystr list"
  ext_read :: "'f event list \<Rightarrow> exn + pystr"
  ext_print :: "'f event list \<Rightarrow> exn + unit"

text \<open>How the script ends: it runs to its last line, calls \<^verbatim>\<open>exit\<close>, or dies of an
  exception nobody catches.\<close>

datatype outcome = Finished | Exited int | Uncaught exn

section \<open>Formatting\<close>

text \<open>\<^verbatim>\<open>str(n)\<close> of a natural number, and an optional string inside an f-string.\<close>

fun str_nat :: "nat \<Rightarrow> pystr" where
  "str_nat n = (if n < 10 then [48 + n] else str_nat (n div 10) @ [48 + n mod 10])"

declare str_nat.simps [simp del]

fun fmt_opt :: "pystr option \<Rightarrow> pystr" where
  "fmt_opt None = str_of ''None''"
| "fmt_opt (Some s) = s"

definition apostrophe :: nat where
  "apostrophe = 39"

section \<open>Index provisioning\<close>

text \<open>
  \<^verbatim>\<open>
  try:
      if index_name not in pc.list_indexes().names():
          pc.create_index(name=index_name, dimension=4096, metric='cosine',
                          spec=ServerlessSpec(cloud='aws', region=environment))
          print(f"Created Pinecone index '{index_name}' with dimension 4096.")
  except Exception as e:
      print(f"Error creating Pinecone index: {e}")
      exit(1)
  \<close>
  \<open>Inl status\<close> is \<^verbatim>\<open>exit(status)\<close>.
\<close>

definition provision_failed :: "'f event list \<Rightarrow> exn \<Rightarrow> 'f event list \<times> (int + unit)" where
  "provision_failed tr e =
     (tr @ [Print (str_of ''Error creating Pinecone index: '' @ exn_str e)], Inl 1)"

definition provision :: "'f env \<Rightarrow> 'f event list \<Rightarrow> 'f event list \<times> (int + unit)" where
  "provision env tr =
     (let tr1 = tr @ [ListIndexes] in
      case ext_list_indexes env tr1 of
        Inl e \<Rightarrow> provision_failed tr1 e
      | Inr names \<Rightarrow>
          if (case index_name env of None \<Rightarrow> True | Some name \<Rightarrow> name \<notin> set names) then
            (let tr2 = tr1 @ [CreateIndex (index_name env) 4096 (str_of ''cosine'')
                                (str_of ''aws'') (environment env)] in
             case ext_create_index env tr2 of
               Inl e \<Rightarrow> provision_failed tr2 e
             | Inr _ \<Rightarrow>
                 (tr2 @ [Print (str_of ''Created Pinecone index '' @ [apostrophe]
                           @ fmt_opt (index_name env) @ [apostrophe]
                           @ str_of '' with dimension 4096.'')], Inr ()))
          else (tr1, Inr ()))"

section \<open>Embedding and storing\<close>

text \<open>
  \<^verbatim>\<open>get_embeddings\<close> is a call of the tokenizer and the model: one event, answered by
  the environment.
\<close>

definition get_embeddings :: "'f env \<Rightarrow> 'f event list \<Rightarrow> pystr \<Rightarrow> 'f event list \<times> (exn + 'f list)" where
  "get_embeddings env tr text = (let tr1 = tr @ [Embed text] in (tr1, ext_embed env tr1))"

text \<open>
  \<^verbatim>\<open>
  def store_in_pinecone(embeddings, chunk, id):
      try:
          index = pc.Index(index_name)
          vector = {'id': id, 'values': embeddings, 'metadata': {'text': chunk}}
          index.upsert([vector])
          print(f"Stored chunk ID {id} in Pinecone.")
      except Exception as e:
          print(f"Error storing data in Pinecone: {e}")
  \<close>
\<close>

definition store_failed :: "'f event list \<Rightarrow> exn \<Rightarrow> 'f event list" where
  "store_failed tr e = tr @ [Print (str_of ''Error storing data in Pinecone: '' @ exn_str e)]"

definition store_in_pinecone :: "'f env \<Rightarrow> 'f event list \<Rightarrow> 'f list \<Rightarrow> pystr \<Rightarrow> pystr \<Rightarrow> 'f event list" where
  "store_in_pinecone env tr embeddings chunk ident =
     (let tr1 = tr @ [OpenIndex (index_name env)] in
      case ext_index env tr1 of
        Inl e \<Rightarrow> store_failed tr1 e
      | Inr _ \<Rightarrow>
          (let tr2 = tr1 @ [Upsert ident embeddings chunk] in
           case ext_upsert env tr2 of
             Inl e \<Rightarrow> store_failed tr2 e
           | Inr _ \<Rightarrow>
               tr2 @ [Print (str_of ''Stored chunk ID '' @ ident @ str_of '' in Pinecone.'')]))"

text \<open>
  \<^verbatim>\<open>
  def process_text(text, file_name):
      chunks = chunk_text(text)
      for i, chunk in enumerate(chunks):
          embeddings = get_embeddings(chunk)
          store_in_pinecone(embeddings, chunk, f"{file_name}-chunk-{i + 1}")
  \<close>
  An exception of \<^verbatim>\<open>get_embeddings\<close> leaves the loop and the function.
\<close>

definition chunk_id :: "pystr \<Rightarrow> nat \<Rightarrow> pystr" where
  "chunk_id file_name i = file_name @ str_of ''-chunk-'' @ str_nat (i + 1)"

fun process_chunks :: "'f env \<Rightarrow> pystr \<Rightarrow> 'f event list \<Rightarrow> (nat \<times> pystr) list \<Rightarrow> 'f event list \<times> (exn + unit)" where
  "process_chunks env file_name tr [] = (tr, Inr ())"
| "process_chunks env file_name tr ((i, chunk) # rest) =
     (case get_embeddings env tr chunk of
        (tr1, Inl e) \<Rightarrow> (tr1, Inl e)
      | (tr1, Inr embeddings) \<Rightarrow>
          process_chunks env file_name
            (store_in_pinecone env tr1 embeddings chunk (chunk_id file_name i)) rest)"

definition process_text :: "'f env \<Rightarrow> 'f event list \<Rightarrow> pystr \<Rightarrow> pystr \<Rightarrow> 'f event list \<times> (exn + unit)" where
  "process_text env tr text file_name =
     process_chunks env file_name tr (enumerate 0 (chunk_text text 512))"

section \<open>Paths\<close>

text \<open>
  \<^verbatim>\<open>os.path.join(a, b)\<close> and \<^verbatim>\<open>Path(p).suffix\<close> on a POSIX system. The name of a path is
  its last component, where empty components and \<^verbatim>\<open>.\<close> do not count; the suffix is the
  name from its last dot on, unless that dot starts or ends the name.
\<close>

definition slash :: nat where
  "slash = 47"

definition dot :: nat where
  "dot = 46"

definition path_join :: "pystr \<Rightarrow> pystr \<Rightarrow> pystr" where
  "path_join a b =
     (if b \<noteq> [] \<and> hd b = slash then b
      else if a = [] \<or> last a = slash then a @ b
      else a @ [slash] @ b)"

fun rfind :: "nat \<Rightarrow> pystr \<Rightarrow> nat option" where
  "rfind c [] = None"
| "rfind c (x # xs) =
     (case rfind c xs of
        Some i \<Rightarrow> Some (Suc i)
      | None \<Rightarrow> if x = c then Some 0 else None)"

definition path_name :: "pystr \<Rightarrow> pystr" where
  "path_name p =
     (case filter (\<lambda>x. x \<noteq> [] \<and> x \<noteq> [dot]) (split_acc slash [] p) of
        [] \<Rightarrow> []
      | part # parts \<Rightarrow> last (part # parts))"

definition path_suffix :: "pystr \<Rightarrow> pystr" where
  "path_suffix p =
     (let name = path_name p in
      case rfind dot name of
        None \<Rightarrow> []
      | Some i \<Rightarrow> if 0 < i \<and> i + 1 < length name then drop i name else [])"

section \<open>Walking the directory\<close>

text \<open>
  \<^verbatim>\<open>
  def process_directory(directory_path):
      try:
          files = os.listdir(directory_path)
          for file in files:
              file_path = os.path.join(directory_path, file)
              if Path(file_path).suffix == '.txt':
                  try:
                      with open(file_path, 'r', encoding='utf8') as f:
                          data = f.read()
                      print(f"Processing file: {file}")
                      process_text(data, file)
                  except Exception as e:
                      print(f"Error reading file: {e}")
      except Exception as e:
          print(f"Error reading directory: {e}")
  \<close>
\<close>

text \<open>
  The result of a step of the walk is \<open>Inr ()\<close> when it returns and \<open>Inl e\<close> when the
  exception \<open>e\<close> leaves it. The first print is inside the \<^verbatim>\<open>try\<close> of the file: when it
  raises, the handler runs and \<^verbatim>\<open>process_text\<close> is not called. A print of a handler is
  outside its own \<^verbatim>\<open>try\<close>: when the handler of a file raises, the exception leaves the
  loop for the handler of the directory, and when that one raises, the exception leaves
  \<^verbatim>\<open>process_directory\<close>.
\<close>

definition file_failed :: "'f env \<Rightarrow> 'f event list \<Rightarrow> exn \<Rightarrow> 'f event list \<times> (exn + unit)" where
  "file_failed env tr e =
     (let tr1 = tr @ [Print (str_of ''Error reading file: '' @ exn_str e)] in
      (tr1, ext_print env tr1))"

definition process_file :: "'f env \<Rightarrow> 'f event list \<Rightarrow> pystr \<Rightarrow> pystr \<Rightarrow> 'f event list \<times> (exn + unit)" where
  "process_file env tr file_path file =
     (let tr1 = tr @ [ReadFile file_path] in
      case ext_read env tr1 of
        Inl e \<Rightarrow> file_failed env tr1 e
      | Inr data \<Rightarrow>
          (let tr2 = tr1 @ [Print (str_of ''Processing file: '' @ file)] in
           case ext_print env tr2 of
             Inl e \<Rightarrow> file_failed env tr2 e
           | Inr _ \<Rightarrow>
               (case process_text env tr2 data file of
                  (tr3, Inl e) \<Rightarrow> file_failed env tr3 e
                | (tr3, Inr _) \<Rightarrow> (tr3, Inr ()))))"

fun process_files :: "'f env \<Rightarrow> pystr \<Rightarrow> 'f event list \<Rightarrow> pystr list \<Rightarrow> 'f event list \<times> (exn + unit)" where
  "process_files env directory_path tr [] = (tr, Inr ())"
| "process_files env directory_path tr (file # files) =
     (let file_path = path_join directory_path file in
      if path_suffix file_path = str_of ''.txt''
      then (case process_file env tr file_path file of
              (tr1, Inl e) \<Rightarrow> (tr1, Inl e)
            | (tr1, Inr _) \<Rightarrow> process_files env directory_path tr1 files)
      else process_files env directory_path tr files)"

definition directory_failed :: "'f env \<Rightarrow> 'f event list \<Rightarrow> exn \<Rightarrow> 'f event list \<times> (exn + unit)" where
  "directory_failed env tr e =
     (let tr1 = tr @ [Print (str_of ''Error reading directory: '' @ exn_str e)] in
      (tr1, ext_print env tr1))"

definition process_directory :: "'f env \<Rightarrow> 'f event list \<Rightarrow> pystr \<Rightarrow> 'f event list \<times> (exn + unit)" where
  "process_directory env tr directory_path =
     (let tr1 = tr @ [ListDir directory_path] in
      case ext_listdir env tr1 of
        Inl e \<Rightarrow> directory_failed env tr1 e
      | Inr files \<Rightarrow>
          (case process_files env directory_path tr1 files of
             (tr2, Inl e) \<Rightarrow> directory_failed env tr2 e
           | (tr2, Inr _) \<Rightarrow> (tr2, Inr ())))"

section \<open>Searching\<close>

text \<open>
  \<^verbatim>\<open>
  def search_in_pinecone(query):
      embeddings = get_embeddings(query)
      if len(embeddings) == 0:
          print('Failed to get embeddings for the query.')
          return
      try:
          index = pc.Index(index_name)
          query_response = index.query(vector=embeddings, top_k=4, include_metadata=True)
          if query_response['matches']:
              print('Search Results:')
              for idx, match in enumerate(query_response['matches']):
                  print(f"{idx + 1}. Score: {match['score']}")
                  print(f"Text: {match['metadata']['text']}")
                  print('--------------------------------')
          else:
              print('No similar results found.')
      except Exception as e:
          print(f"Error searching Pinecone: {e}")
  \<close>
  A response of the store is taken to have the keys the loop reads.
\<close>

definition search_failed :: "'f event list \<Rightarrow> exn \<Rightarrow> 'f event list" where
  "search_failed tr e = tr @ [Print (str_of ''Error searching Pinecone: '' @ exn_str e)]"

definition print_match :: "nat \<times> match \<Rightarrow> 'f event list" where
  "print_match im =
     (case im of (idx, m) \<Rightarrow>
        [Print (str_nat (idx + 1) @ str_of ''. Score: '' @ score m),
         Print (str_of ''Text: '' @ metadata_text m),
         Print (str_of ''--------------------------------'')])"

definition search_in_pinecone :: "'f env \<Rightarrow> 'f event list \<Rightarrow> pystr \<Rightarrow> 'f event list \<times> (exn + unit)" where
  "search_in_pinecone env tr query =
     (case get_embeddings env tr query of
        (tr1, Inl e) \<Rightarrow> (tr1, Inl e)
      | (tr1, Inr embeddings) \<Rightarrow>
          if length embeddings = 0
          then (tr1 @ [Print (str_of ''Failed to get embeddings for the query.'')], Inr ())
          else
            (let tr2 = tr1 @ [OpenIndex (index_name env)] in
             case ext_index env tr2 of
               Inl e \<Rightarrow> (search_failed tr2 e, Inr ())
             | Inr _ \<Rightarrow>
                 (let tr3 = tr2 @ [Query embeddings 4] in
                  case ext_query env tr3 of
                    Inl e \<Rightarrow> (search_failed tr3 e, Inr ())
                  | Inr matches \<Rightarrow>
                      if matches \<noteq> []
                      then (tr3 @ [Print (str_of ''Search Results:'')]
                              @ concat (map print_match (enumerate 0 matches)), Inr ())
                      else (tr3 @ [Print (str_of ''No similar results found.'')], Inr ()))))"

section \<open>The script\<close>

text \<open>
  The module from top to bottom: the store client, the provisioning of the index, the
  login (\<^verbatim>\<open>raise ValueError\<close> without a token), the tokenizer and the model, then
  \<^verbatim>\<open>process_directory('./documents')\<close> and the example query. \<open>ingest_and_search\<close> is
  the part after the model is loaded, \<open>after_provision\<close> the part after the provisioning.
\<close>

definition model_id :: pystr where
  "model_id = str_of ''meta-llama/Meta-Llama-3-70B-Instruct''"

definition directory_path :: pystr where
  "directory_path = str_of ''./documents''"

definition user_query :: pystr where
  "user_query = str_of ''CAN YOU GIVE ME INFORMATION ABOUT IITJ,JODHPUR?''"

definition ingest_and_search :: "'f env \<Rightarrow> 'f event list \<Rightarrow> 'f event list \<times> outcome" where
  "ingest_and_search env tr =
     (case process_directory env tr directory_path of
        (tr1, Inl e) \<Rightarrow> (tr1, Uncaught e)
      | (tr1, Inr _) \<Rightarrow>
          (case search_in_pinecone env tr1 user_query of
             (tr2, Inl e) \<Rightarrow> (tr2, Uncaught e)
           | (tr2, Inr _) \<Rightarrow> (tr2, Finished)))"

definition load_model :: "'f env \<Rightarrow> 'f event list \<Rightarrow> 'f event list \<times> outcome" where
  "load_model env tr =
     (let tr1 = tr @ [LoadTokenizer model_id] in
      case ext_tokenizer env tr1 of
        Inl e \<Rightarrow> (tr1, Uncaught e)
      | Inr _ \<Rightarrow>
          (let tr2 = tr1 @ [LoadModel model_id] in
           case ext_model env tr2 of
             Inl e \<Rightarrow> (tr2, Uncaught e)
           | Inr _ \<Rightarrow> ingest_and_search env tr2))"

definition after_provision :: "'f env \<Rightarrow> 'f event list \<Rightarrow> 'f event list \<times> outcome" where
  "after_provision env tr =
     (case hf_token env of
        None \<Rightarrow>
          (tr, Uncaught (Exn (str_of ''HUGGINGFACE_API_TOKEN environment variable not set'')))
      | Some token \<Rightarrow>
          if token = []
          then (tr, Uncaught (Exn (str_of ''HUGGINGFACE_API_TOKEN environment variable not set'')))
          else
            (let tr1 = tr @ [HfLogin token] in
             case ext_login env tr1 of
               Inl e \<Rightarrow> (tr1, Uncaught e)
             | Inr _ \<Rightarrow> load_model env tr1))"

definition script :: "'f env \<Rightarrow> 'f event list \<times> outcome" where
  "script env =
     (let tr0 = [PineconeClient (api_key env)] in
      case ext_client env tr0 of
        Inl e \<Rightarrow> (tr0, Uncaught e)
      | Inr _ \<Rightarrow>
          (case provision env tr0 of
             (tr1, Inl status) \<Rightarrow> (tr1, Exited status)
           | (tr1, Inr _) \<Rightarrow> after_provision env tr1))"

section \<open>Reading a trace\<close>

text \<open>The stores, the files read, the creations and the queries of a trace, in order.\<close>

fun upserts :: "'f event list \<Rightarrow> (pystr \<times> 'f list \<times> pystr) list" where
  "upserts [] = []"
| "upserts (Upsert ident values chunk # tr) = (ident, values, chunk) # upserts tr"
| "upserts (_ # tr) = upserts tr"

text \<open>The id and the text of every upsert.\<close>

definition stored :: "'f event list \<Rightarrow> (pystr \<times> pystr) list" where
  "stored tr = map (\<lambda>(ident, values, chunk). (ident, chunk)) (upserts tr)"

fun is_read :: "'f event \<Rightarrow> bool" where
  "is_read (ReadFile p) = True"
| "is_read _ = False"

fun is_create :: "'f event \<Rightarrow> bool" where
  "is_create (CreateIndex name d m c r) = True"
| "is_create _ = False"


fun is_file_access :: "'f event \<Rightarrow> bool" where
  "is_file_access (ListDir d) = True"
| "is_file_access (ReadFile p) = True"
| "is_file_access _ = False"

text \<open>The entries of a listing that the walker reads: those whose path has the suffix
  \<^verbatim>\<open>.txt\<close>.\<close>

definition txt_entries :: "pystr \<Rightarrow> pystr list \<Rightarrow> pystr list" where
  "txt_entries dir files =
     filter (\<lambda>file. path_suffix (path_join dir file) = str_of ''.txt'') files"

section \<open>An example environment\<close>

text \<open>
  Every call succeeds: the index exists, the directory holds \<^verbatim>\<open>a.txt\<close> and \<^verbatim>\<open>b.pdf\<close>, a
  file reads as "hi yo", the embedding of every text is empty, a query has no match and
  every print returns.
\<close>

definition demo_env :: "nat env" where
  "demo_env =
     \<lparr> api_key = Some (str_of ''key''),
       environment = Some (str_of ''us-east-1''),
       index_name = Some (str_of ''docs''),
       hf_token = Some (str_of ''token''),
       ext_client = (\<lambda>h. Inr ()),
       ext_list_indexes = (\<lambda>h. Inr [str_of ''docs'']),
       ext_create_index = (\<lambda>h. Inr ()),
       ext_login = (\<lambda>h. Inr ()),
       ext_tokenizer = (\<lambda>h. Inr ()),
       ext_model = (\<lambda>h. Inr ()),
       ext_embed = (\<lambda>h. Inr []),
       ext_index = (\<lambda>h. Inr ()),
       ext_upsert = (\<lambda>h. Inr ()),
       ext_query = (\<lambda>h. Inr []),
       ext_listdir = (\<lambda>h. Inr [str_of ''a.txt'', str_of ''b.pdf'']),
       ext_read = (\<lambda>h. Inr (str_of ''hi yo'')),
       ext_print = (\<lambda>h. Inr ()) \<rparr>"

section \<open>Scenarios of the chunker\<close>

lemmas chunk_eval =
  chunk_text_def split_sp_def str_of_def space_def strip_def isspace_def

text \<open>
  C3, as the code behaves: on the text "a b c" with limit 3 the buffer "a " has two
  characters and "b" one, the test 2 + 1 <= 3 succeeds, and the result is the two chunks
  "a b" and "c".
\<close>

theorem chunk_text_abc_3:
  "chunk_text (str_of ''a b c'') 3 = [str_of ''a b'', str_of ''c'']"
  by (simp add: chunk_eval)

theorem chunk_text_abc_3_counterexample:
  "chunk_text (str_of ''a b c'') 3 \<noteq> [str_of ''a'', str_of ''b'', str_of ''c'']"
  by (simp add: chunk_eval)

text \<open>
  C4, on the code: the empty text splits into one empty word, the loop turns the buffer
  into a single space, and the final test on the unstripped buffer lets the stripped,
  empty chunk through. The result is never the empty sequence.
\<close>

theorem chunk_text_empty_input:
  "chunk_text [] 512 = [[]] \<and> (\<forall>n. chunk_text [] n \<noteq> [])"
  by (simp add: chunk_eval)

section \<open>The chunks are the stripped buffers of the groups\<close>

lemma isspace_space: "isspace space"
  by (simp add: isspace_def space_def)

lemma buf_Nil_iff: "buf g = [] \<longleftrightarrow> g = []"
  by (cases g) (simp_all add: buf_def)

lemma buf_snoc: "buf (g @ [w]) = buf g @ w @ [space]"
  by (simp add: buf_def)

lemma buf_single: "buf [w] = w @ [space]"
  by (simp add: buf_def)

lemma chunk_loop_groups:
  "chunk_loop n ws (map (\<lambda>g. strip (buf g)) gs) (buf g) =
     (case group_loop n ws gs g of (gs', g') \<Rightarrow> (map (\<lambda>g. strip (buf g)) gs', buf g'))"
proof (induction ws arbitrary: gs g)
  case Nil
  show ?case by simp
next
  case (Cons w ws)
  show ?case
  proof (cases "int (length (buf g)) + int (length w) \<le> n")
    case True
    with Cons.IH [of gs "g @ [w]"] show ?thesis by (simp add: buf_snoc)
  next
    case False
    with Cons.IH [of "gs @ [g]" "[w]"] show ?thesis by (simp add: buf_single)
  qed
qed

lemma chunk_text_groups:
  "chunk_text text n = map (\<lambda>g. strip (buf g)) (chunk_groups text n)"
proof -
  obtain gs g where gl: "group_loop n (split_sp text) [] [] = (gs, g)"
    by (cases "group_loop n (split_sp text) [] []")
  have "chunk_loop n (split_sp text) [] [] = (map (\<lambda>g. strip (buf g)) gs, buf g)"
    using chunk_loop_groups [of n "split_sp text" "[]" "[]"] gl by (simp add: buf_def)
  then show ?thesis
    by (simp add: chunk_text_def chunk_groups_def gl buf_Nil_iff)
qed

lemma group_loop_concat:
  "group_loop n ws gs g = (gs', g') \<Longrightarrow> concat gs' @ g' = concat gs @ g @ ws"
  by (induction ws arbitrary: gs g) (auto split: if_splits)

lemma split_acc_not_Nil: "split_acc sep cur t \<noteq> []"
  by (induction t arbitrary: cur) auto

lemma chunk_groups_concat: "concat (chunk_groups text n) = split_sp text"
proof -
  obtain gs g where gl: "group_loop n (split_sp text) [] [] = (gs, g)"
    by (cases "group_loop n (split_sp text) [] []")
  from group_loop_concat [OF gl] show ?thesis
    by (auto simp: chunk_groups_def gl)
qed

lemma group_loop_invariant:
  assumes "group_loop n ws gs g = (gs', g')"
    and "\<forall>x\<in>set gs. P x" and "P g"
    and add: "\<And>g w. P g \<Longrightarrow> int (length (buf g)) + int (length w) \<le> n \<Longrightarrow> P (g @ [w])"
    and close: "\<And>g w. \<not> int (length (buf g)) + int (length w) \<le> n \<Longrightarrow> P [w]"
  shows "(\<forall>x\<in>set gs'. P x) \<and> P g'"
  using assms(1-3)
proof (induction ws arbitrary: gs g)
  case Nil
  then show ?case by simp
next
  case (Cons w ws)
  show ?case
  proof (cases "int (length (buf g)) + int (length w) \<le> n")
    case True
    with Cons.prems have "group_loop n ws gs (g @ [w]) = (gs', g')" by simp
    from Cons.IH [OF this Cons.prems(2) add [OF Cons.prems(3) True]] show ?thesis .
  next
    case False
    with Cons.prems have gl: "group_loop n ws (gs @ [g]) [w] = (gs', g')" by simp
    have "\<forall>x\<in>set (gs @ [g]). P x" using Cons.prems by simp
    from Cons.IH [OF gl this close [OF False]] show ?thesis .
  qed
qed

lemma chunk_groups_invariant:
  assumes "P []"
    and add: "\<And>g w. P g \<Longrightarrow> int (length (buf g)) + int (length w) \<le> n \<Longrightarrow> P (g @ [w])"
    and close: "\<And>g w. \<not> int (length (buf g)) + int (length w) \<le> n \<Longrightarrow> P [w]"
  shows "\<forall>g\<in>set (chunk_groups text n). P g"
proof -
  obtain gs g where gl: "group_loop n (split_sp text) [] [] = (gs, g)"
    by (cases "group_loop n (split_sp text) [] []")
  have "(\<forall>x\<in>set gs. P x) \<and> P g"
    by (rule group_loop_invariant [OF gl _ assms(1) add close]) simp_all
  then show ?thesis by (auto simp: chunk_groups_def gl)
qed

section \<open>Facts about \<open>strip\<close>\<close>

lemma length_strip_le: "length (strip x) \<le> length x"
proof -
  have "length (strip x) \<le> length (dropWhile isspace x)"
    using length_dropWhile_le [of isspace "rev (dropWhile isspace x)"] by (simp add: strip_def)
  also have "\<dots> \<le> length x" by (rule length_dropWhile_le)
  finally show ?thesis .
qed

lemma strip_Nil_iff: "strip x = [] \<longleftrightarrow> (\<forall>c\<in>set x. isspace c)"
proof
  assume s: "strip x = []"
  show "\<forall>c\<in>set x. isspace c"
  proof (cases "dropWhile isspace x = []")
    case True
    then show ?thesis by (simp add: dropWhile_eq_Nil_conv)
  next
    case False
    then have "\<not> isspace (hd (dropWhile isspace x))" by (rule hd_dropWhile)
    moreover have "hd (dropWhile isspace x) \<in> set (dropWhile isspace x)"
      using False by simp
    moreover from s have "\<forall>c\<in>set (dropWhile isspace x). isspace c"
      by (simp add: strip_def dropWhile_eq_Nil_conv)
    ultimately show ?thesis by blast
  qed
next
  assume "\<forall>c\<in>set x. isspace c"
  then show "strip x = []" by (auto simp: strip_def dest: set_dropWhileD)
qed

lemma strip_snoc_space: "isspace s \<Longrightarrow> strip (x @ [s]) = strip x"
proof (cases "\<forall>c\<in>set x. isspace c")
  case True
  assume "isspace s"
  with True have "\<forall>c\<in>set (x @ [s]). isspace c" by simp
  then have "strip (x @ [s]) = []" by (simp only: strip_Nil_iff)
  moreover from True have "strip x = []" by (simp only: strip_Nil_iff)
  ultimately show ?thesis by simp
next
  case False
  assume s: "isspace s"
  from False obtain c where "c \<in> set x" "\<not> isspace c" by blast
  then have "dropWhile isspace (x @ [s]) = dropWhile isspace x @ [s]"
    by (rule dropWhile_append1)
  with s show ?thesis by (simp add: strip_def)
qed

lemma strip_ends: "strip x \<noteq> [] \<Longrightarrow> \<not> isspace (hd (strip x)) \<and> \<not> isspace (last (strip x))"
proof
  assume ne: "strip x \<noteq> []"
  let ?y = "dropWhile isspace x"
  let ?z = "dropWhile isspace (rev ?y)"
  have z: "strip x = rev ?z" by (simp add: strip_def)
  with ne have zne: "?z \<noteq> []" by simp
  then have yne: "?y \<noteq> []" by (auto dest: set_dropWhileD)
  have "rev ?z @ rev (takeWhile isspace (rev ?y)) = rev (takeWhile isspace (rev ?y) @ ?z)"
    by (simp only: rev_append)
  also have "\<dots> = rev (rev ?y)" by (simp only: takeWhile_dropWhile_id)
  finally have "rev ?z @ rev (takeWhile isspace (rev ?y)) = ?y" by (simp only: rev_rev_ident)
  then have "hd ?y = hd (rev ?z @ rev (takeWhile isspace (rev ?y)))" by (simp only:)
  also have "\<dots> = hd (rev ?z)" using zne by (simp only: hd_append2 rev_is_Nil_conv not_False_eq_True)
  finally have "hd ?y = hd (rev ?z)" .
  moreover have "\<not> isspace (hd ?y)" using yne by (rule hd_dropWhile)
  ultimately show "\<not> isspace (hd (strip x))" by (simp add: z)
  have "\<not> isspace (hd ?z)" using zne by (rule hd_dropWhile)
  then show "\<not> isspace (last (strip x))" using zne by (simp add: z last_rev)
qed

lemma strip_strip: "strip (strip x) = strip x"
proof (cases "strip x = []")
  case True
  have "strip [] = []" by (simp add: strip_def)
  with True show ?thesis by simp
next
  case False
  from strip_ends [OF False] have h: "\<not> isspace (hd (strip x))" and l: "\<not> isspace (last (strip x))"
    by simp_all
  from False h have "dropWhile isspace (strip x) = strip x"
    by (simp add: dropWhile_eq_self_iff)
  moreover from False l have "dropWhile isspace (rev (strip x)) = rev (strip x)"
    by (simp add: dropWhile_eq_self_iff hd_rev)
  ultimately show ?thesis
    by (simp add: strip_def [of "strip x"])
qed

section \<open>Chunks carry no surrounding whitespace\<close>

text \<open>
  C10: for every text and every limit, each chunk \<open>chunk_text\<close> returns is unchanged by
  \<open>strip\<close>, and a non-empty chunk neither starts nor ends with a whitespace character.
\<close>

theorem chunk_text_stripped:
  "\<forall>c\<in>set (chunk_text text n).
     strip c = c \<and> (c \<noteq> [] \<longrightarrow> \<not> isspace (hd c) \<and> \<not> isspace (last c))"
proof
  fix c assume "c \<in> set (chunk_text text n)"
  then obtain g where c: "c = strip (buf g)"
    by (auto simp: chunk_text_groups)
  show "strip c = c \<and> (c \<noteq> [] \<longrightarrow> \<not> isspace (hd c) \<and> \<not> isspace (last c))"
    unfolding c using strip_ends [of "buf g"] by (simp add: strip_strip)
qed

theorem chunk_text_stripped_witness:
  "chunk_text (str_of ''  ab   cd '') 4 = [str_of ''ab'', str_of ''cd'', []]
   \<and> strip (str_of ''ab'') = str_of ''ab''
   \<and> \<not> isspace (hd (str_of ''ab'')) \<and> \<not> isspace (last (str_of ''ab''))"
  using chunk_text_stripped [of "str_of ''  ab   cd ''" 4]
  by (simp add: chunk_eval)

section \<open>The length bound\<close>

lemma in_set_concat: "x \<in> set xs \<Longrightarrow> w \<in> set x \<Longrightarrow> w \<in> set (concat xs)"
  by auto

lemma strip_buf_Nil: "strip (buf []) = []"
  by (simp add: buf_def strip_def)

lemma strip_buf_single: "strip (buf [w]) = strip w"
  by (simp add: buf_single strip_snoc_space isspace_space)

lemma length_strip_buf: "g \<noteq> [] \<Longrightarrow> int (length (strip (buf g))) \<le> int (length (buf g)) - 1"
proof -
  assume "g \<noteq> []"
  then obtain g' w where g: "g = g' @ [w]" by (cases g rule: rev_cases) auto
  have "strip (buf g) = strip (buf g' @ w)"
    using strip_snoc_space [OF isspace_space, of "buf g' @ w"] by (simp add: g buf_snoc)
  moreover have "length (strip (buf g' @ w)) \<le> length (buf g' @ w)" by (rule length_strip_le)
  ultimately show ?thesis by (simp add: g buf_snoc)
qed

lemma chunk_groups_bound:
  assumes "0 \<le> n"
  shows "\<forall>g\<in>set (chunk_groups text n).
           int (length (strip (buf g))) \<le> n \<or> (\<exists>w. g = [w] \<and> n < int (length w))"
proof -
  let ?P = "\<lambda>g. int (length (buf g)) \<le> n + 1 \<or> (\<exists>w. g = [w] \<and> n < int (length w))"
  have inv: "\<forall>g\<in>set (chunk_groups text n). ?P g"
  proof (rule chunk_groups_invariant)
    show "?P []" using assms by (simp add: buf_def)
  next
    fix g :: "pystr list" and w :: pystr
    assume "int (length (buf g)) + int (length w) \<le> n"
    then show "?P (g @ [w])" by (simp add: buf_snoc)
  next
    fix g :: "pystr list" and w :: pystr
    show "?P [w]" by (cases "int (length w) \<le> n") (simp_all add: buf_single)
  qed
  show ?thesis
  proof
    fix g assume "g \<in> set (chunk_groups text n)"
    with inv have p: "?P g" by blast
    show "int (length (strip (buf g))) \<le> n \<or> (\<exists>w. g = [w] \<and> n < int (length w))"
    proof (cases "g = []")
      case True
      with assms show ?thesis by (simp add: strip_buf_Nil)
    next
      case False
      from length_strip_buf [OF False] p show ?thesis by auto
    qed
  qed
qed

lemma chunk_groups_alone:
  "\<forall>g\<in>set (chunk_groups text n). \<forall>w\<in>set g. n < int (length w) \<longrightarrow> g = [w]"
proof (rule chunk_groups_invariant)
  show "\<forall>w\<in>set []. n < int (length w) \<longrightarrow> [] = [w]" by simp
next
  fix g :: "pystr list" and w :: pystr
  assume p: "\<forall>w\<in>set g. n < int (length w) \<longrightarrow> g = [w]"
    and c: "int (length (buf g)) + int (length w) \<le> n"
  have "\<not> n < int (length v)" if "v \<in> set g" for v
  proof
    assume "n < int (length v)"
    with p that have "g = [v]" by blast
    with c \<open>n < int (length v)\<close> show False by (simp add: buf_single)
  qed
  moreover from c have "\<not> n < int (length w)" by simp
  ultimately show "\<forall>v\<in>set (g @ [w]). n < int (length v) \<longrightarrow> g @ [w] = [v]" by auto
next
  fix g :: "pystr list" and w :: pystr
  show "\<forall>v\<in>set [w]. n < int (length v) \<longrightarrow> [w] = [v]" by simp
qed

text \<open>
  C1: for every text and every limit that is a size (\<open>0 \<le> n\<close>), every chunk has at most
  \<open>n\<close> characters, or is a word of the text longer than \<open>n\<close> (stripped, as every chunk
  is). For every text and every integer limit, the chunks are the stripped buffers of
  consecutive groups of the text's words, and a group that holds a word longer than \<open>n\<close>
  holds nothing else: that word is alone in its chunk.
\<close>

theorem chunk_text_length_bound:
  "(0 \<le> n \<longrightarrow>
      (\<forall>c\<in>set (chunk_text text n).
         int (length c) \<le> n \<or> (\<exists>w\<in>set (split_sp text). n < int (length w) \<and> c = strip w)))
   \<and> (\<exists>gs. concat gs = split_sp text
          \<and> chunk_text text n = map (\<lambda>g. strip (buf g)) gs
          \<and> (\<forall>g\<in>set gs. \<forall>w\<in>set g. n < int (length w) \<longrightarrow> g = [w]))"
proof (intro conjI impI)
  assume assms: "0 \<le> n"
  show "\<forall>c\<in>set (chunk_text text n).
          int (length c) \<le> n \<or> (\<exists>w\<in>set (split_sp text). n < int (length w) \<and> c = strip w)"
  proof
    fix c assume "c \<in> set (chunk_text text n)"
    then obtain g where g: "g \<in> set (chunk_groups text n)" and c: "c = strip (buf g)"
      by (auto simp: chunk_text_groups)
    from chunk_groups_bound [OF assms, of "text"] g
    consider "int (length (strip (buf g))) \<le> n" | w where "g = [w]" "n < int (length w)"
      by blast
    then show "int (length c) \<le> n \<or> (\<exists>w\<in>set (split_sp text). n < int (length w) \<and> c = strip w)"
    proof cases
      case 1
      then show ?thesis by (simp add: c)
    next
      case 2
      from g 2(1) have "[w] \<in> set (chunk_groups text n)" by simp
      then have "w \<in> set (concat (chunk_groups text n))" by (rule in_set_concat) simp
      then have "w \<in> set (split_sp text)" by (simp only: chunk_groups_concat)
      with 2 show ?thesis by (auto simp: c strip_buf_single)
    qed
  qed
next
  show "\<exists>gs. concat gs = split_sp text
              \<and> chunk_text text n = map (\<lambda>g. strip (buf g)) gs
              \<and> (\<forall>g\<in>set gs. \<forall>w\<in>set g. n < int (length w) \<longrightarrow> g = [w])"
    using chunk_groups_concat [of "text" n] chunk_text_groups [of "text" n] chunk_groups_alone [of "text" n]
    by blast
qed

theorem chunk_text_length_bound_witness:
  "(0::int) \<le> 4
   \<and> chunk_text (str_of ''ab cdefghi j'') 4 = [str_of ''ab'', str_of ''cdefghi'', str_of ''j'']
   \<and> split_sp (str_of ''ab cdefghi j'') = [str_of ''ab'', str_of ''cdefghi'', str_of ''j'']
   \<and> strip (str_of ''cdefghi'') = str_of ''cdefghi''"
  using chunk_text_length_bound [of 4 "str_of ''ab cdefghi j''"]
  by (simp add: chunk_eval)

text \<open>
  The bound is about sizes. An integer below 0 is no size, and the code does not refuse
  it: on the text "a" with -1 the loop closes the empty buffer first, and the empty chunk
  has more than -1 characters.
\<close>

lemma chunk_text_negative_limit:
  "chunk_text (str_of ''a'') (- 1) = [[], str_of ''a'']
   \<and> \<not> int (length ([] :: pystr)) \<le> - 1
   \<and> split_sp (str_of ''a'') = [str_of ''a'']
   \<and> strip (str_of ''a'') \<noteq> []"
  by (simp add: chunk_eval)

section \<open>A first word longer than the limit\<close>

lemma group_loop_appends: "\<exists>ex. fst (group_loop n ws gs g) = gs @ ex"
proof (induction ws arbitrary: gs g)
  case Nil
  show ?case by simp
next
  case (Cons w ws)
  show ?case
  proof (cases "int (length (buf g)) + int (length w) \<le> n")
    case True
    with Cons.IH [of gs "g @ [w]"] show ?thesis by simp
  next
    case False
    from Cons.IH [of "gs @ [g]" "[w]"] obtain ex
      where "fst (group_loop n ws (gs @ [g]) [w]) = gs @ g # ex" by auto
    with False show ?thesis by simp
  qed
qed

lemma chunk_groups_appends:
  "group_loop n ws gs g = (gs', g') \<Longrightarrow> \<exists>ex. (if g' \<noteq> [] then gs' @ [g'] else gs') = gs @ ex"
  using group_loop_appends [of n ws gs g] by auto

lemma chunk_groups_oversized_first:
  assumes "n < int (length (hd (split_sp text)))"
  shows "\<exists>rest. chunk_groups text n = [] # [hd (split_sp text)] # rest"
proof -
  obtain w ws where sp: "split_sp text = w # ws"
    using split_acc_not_Nil [of space "[]" "text"] by (cases "split_sp text") (auto simp: split_sp_def)
  with assms have big: "n < int (length w)" by simp
  show ?thesis
  proof (cases ws)
    case Nil
    with big show ?thesis by (simp add: chunk_groups_def sp buf_def)
  next
    case (Cons w2 ws')
    obtain gs' g' where gl: "group_loop n ws' [[], [w]] [w2] = (gs', g')"
      by (cases "group_loop n ws' [[], [w]] [w2]")
    from chunk_groups_appends [OF gl] obtain ex
      where "(if g' \<noteq> [] then gs' @ [g'] else gs') = [[], [w]] @ ex" ..
    moreover from big have "chunk_groups text n = (if g' \<noteq> [] then gs' @ [g'] else gs')"
      by (simp add: chunk_groups_def sp Cons buf_def gl)
    ultimately show ?thesis by (simp add: sp)
  qed
qed

lemma group_loop_nonempty:
  "group_loop n ws gs g = (gs', g') \<Longrightarrow> \<forall>x\<in>set (tl gs). x \<noteq> [] \<Longrightarrow> (gs \<noteq> [] \<longrightarrow> g \<noteq> [])
   \<Longrightarrow> (\<forall>x\<in>set (tl gs'). x \<noteq> []) \<and> (gs' \<noteq> [] \<longrightarrow> g' \<noteq> [])"
proof (induction ws arbitrary: gs g)
  case Nil
  then show ?case by simp
next
  case (Cons w ws)
  show ?case
  proof (cases "int (length (buf g)) + int (length w) \<le> n")
    case True
    with Cons.prems have "group_loop n ws gs (g @ [w]) = (gs', g')" by simp
    from Cons.IH [OF this] Cons.prems show ?thesis by simp
  next
    case False
    with Cons.prems have gl: "group_loop n ws (gs @ [g]) [w] = (gs', g')" by simp
    have "\<forall>x\<in>set (tl (gs @ [g])). x \<noteq> []" using Cons.prems(2,3) by (cases gs) auto
    from Cons.IH [OF gl this] show ?thesis by simp
  qed
qed

lemma chunk_groups_tl_nonempty: "\<forall>g\<in>set (tl (chunk_groups text n)). g \<noteq> []"
proof -
  obtain gs g where gl: "group_loop n (split_sp text) [] [] = (gs, g)"
    by (cases "group_loop n (split_sp text) [] []")
  from group_loop_nonempty [OF gl] have "(\<forall>x\<in>set (tl gs). x \<noteq> []) \<and> (gs \<noteq> [] \<longrightarrow> g \<noteq> [])"
    by simp
  then show ?thesis by (cases gs) (auto simp: chunk_groups_def gl)
qed

lemma strip_buf_nonempty:
  assumes "w \<in> set g" and "strip w \<noteq> []"
  shows "strip (buf g) \<noteq> []"
proof -
  from assms(2) obtain c where "c \<in> set w" "\<not> isspace c" by (auto simp: strip_Nil_iff)
  with assms(1) have "c \<in> set (buf g)" by (auto simp: buf_def)
  with \<open>\<not> isspace c\<close> show ?thesis by (auto simp: strip_Nil_iff)
qed

text \<open>
  C9, as the code behaves: when the first word is longer than the limit, the result
  starts with the empty chunk, followed by that word (stripped) alone. When every word of
  the text has a character that is not whitespace, the empty chunk occurs at index 0
  only.
\<close>

theorem chunk_text_first_word_oversized:
  "(n < int (length (hd (split_sp text))) \<longrightarrow>
      (\<exists>rest. chunk_text text n = [] # strip (hd (split_sp text)) # rest))
   \<and> ((\<forall>w\<in>set (split_sp text). strip w \<noteq> []) \<longrightarrow>
      (\<forall>i<length (chunk_text text n). chunk_text text n ! i = [] \<longrightarrow> i = 0))"
proof (intro conjI impI allI)
  assume "n < int (length (hd (split_sp text)))"
  from chunk_groups_oversized_first [OF this] obtain rest
    where "chunk_groups text n = [] # [hd (split_sp text)] # rest" ..
  then show "\<exists>rest. chunk_text text n = [] # strip (hd (split_sp text)) # rest"
    by (simp add: chunk_text_groups strip_buf_Nil strip_buf_single)
next
  fix i
  assume words: "\<forall>w\<in>set (split_sp text). strip w \<noteq> []"
    and i: "i < length (chunk_text text n)" and e: "chunk_text text n ! i = []"
  show "i = 0"
  proof (rule ccontr)
    assume "i \<noteq> 0"
    then obtain j where j: "i = Suc j" by (cases i) auto
    let ?gs = "chunk_groups text n"
    from i have len: "Suc j < length ?gs" by (simp add: chunk_text_groups j)
    then have "tl ?gs ! j = ?gs ! Suc j" by (simp add: nth_tl)
    moreover from len have "tl ?gs ! j \<in> set (tl ?gs)" by (intro nth_mem) simp
    ultimately have mem: "?gs ! i \<in> set (tl ?gs)" by (simp add: j)
    with chunk_groups_tl_nonempty have "?gs ! i \<noteq> []" by blast
    then obtain w where w: "w \<in> set (?gs ! i)" by (cases "?gs ! i") auto
    from mem have "?gs ! i \<in> set ?gs" by (rule list.set_sel(2) [rotated]) (use len in auto)
    from this w have "w \<in> set (concat ?gs)" by (rule in_set_concat)
    then have "w \<in> set (split_sp text)" by (simp only: chunk_groups_concat)
    with words have "strip w \<noteq> []" by blast
    from strip_buf_nonempty [OF w this] have "strip (buf (?gs ! i)) \<noteq> []" .
    moreover from e len have "strip (buf (?gs ! i)) = []" by (simp add: chunk_text_groups j)
    ultimately show False by contradiction
  qed
qed

theorem chunk_text_first_word_oversized_witness:
  "3 < int (length (hd (split_sp (str_of ''abcdef gh''))))
   \<and> chunk_text (str_of ''abcdef gh'') 3 = [[], str_of ''abcdef'', str_of ''gh'']
   \<and> strip (str_of ''abcdef'') \<noteq> [] \<and> strip (str_of ''gh'') \<noteq> []"
  using chunk_text_first_word_oversized [of 3 "str_of ''abcdef gh''"]
  by (simp add: chunk_eval)

text \<open>
  Without the condition on the words the second part fails: two spaces in a row give an
  empty word, and on "a  b" with limit 1 the buffer holding only that empty word is closed
  as the second chunk.
\<close>

theorem chunk_text_first_word_oversized_counterexample:
  "chunk_text (str_of ''a  b'') 1 = [str_of ''a'', [], str_of ''b'']
   \<and> chunk_text (str_of ''a  b'') 1 ! 1 = []"
  by (simp add: chunk_eval)

section \<open>Re-joining the chunks\<close>

lemma ws_acc_sep: "isspace s \<Longrightarrow> ws_acc cur (a @ s # b) = ws_acc cur a @ ws_acc [] b"
  by (induction a arbitrary: cur) simp_all

lemma ws_words_sep: "isspace s \<Longrightarrow> ws_words (a @ s # b) = ws_words a @ ws_words b"
  by (simp add: ws_words_def ws_acc_sep)

lemma ws_acc_all_space: "\<forall>c\<in>set t. isspace c \<Longrightarrow> ws_acc [] t = []"
  by (induction t) simp_all

lemma ws_words_trailing:
  assumes "\<forall>c\<in>set t. isspace c"
  shows "ws_words (a @ t) = ws_words a"
proof (cases t)
  case Nil
  then show ?thesis by simp
next
  case (Cons s t')
  with assms have "isspace s" and "ws_acc [] t' = []" by (simp_all add: ws_acc_all_space)
  then show ?thesis by (simp add: Cons ws_words_def ws_acc_sep)
qed

lemma ws_words_leading: "ws_words (dropWhile isspace a) = ws_words a"
  by (induction a) (simp_all add: ws_words_def)

lemma ws_words_strip: "ws_words (strip x) = ws_words x"
proof -
  let ?y = "dropWhile isspace x"
  let ?t = "rev (takeWhile isspace (rev ?y))"
  have "strip x @ ?t = rev (takeWhile isspace (rev ?y) @ dropWhile isspace (rev ?y))"
    by (simp only: strip_def rev_append)
  also have "\<dots> = rev (rev ?y)" by (simp only: takeWhile_dropWhile_id)
  finally have y: "strip x @ ?t = ?y" by (simp only: rev_rev_ident)
  have "\<forall>c\<in>set ?t. isspace c" by (auto dest: set_takeWhileD)
  then have "ws_words (strip x @ ?t) = ws_words (strip x)" by (rule ws_words_trailing)
  then have "ws_words (strip x) = ws_words ?y" by (simp only: y)
  then show ?thesis by (simp only: ws_words_leading)
qed

lemma ws_words_split_acc: "ws_words (cur @ t) = concat (map ws_words (split_acc space cur t))"
proof (induction t arbitrary: cur)
  case Nil
  show ?case by simp
next
  case (Cons c cs)
  show ?case
  proof (cases "c = space")
    case True
    have "ws_words (cur @ c # cs) = ws_words cur @ ws_words cs"
      using isspace_space by (simp only: True ws_words_sep)
    with Cons.IH [of "[]"] show ?thesis by (simp add: True)
  next
    case False
    with Cons.IH [of "cur @ [c]"] show ?thesis by simp
  qed
qed

lemma ws_words_split_sp: "concat (map ws_words (split_sp t)) = ws_words t"
  using ws_words_split_acc [of "[]" t] by (simp add: split_sp_def)

lemma ws_words_buf: "ws_words (buf g) = concat (map ws_words g)"
proof (induction g)
  case Nil
  show ?case by (simp add: buf_def ws_words_def)
next
  case (Cons w g)
  have "buf (w # g) = w @ space # buf g" by (simp add: buf_def)
  with Cons show ?case by (simp add: ws_words_sep isspace_space)
qed

lemma ws_words_join_sp: "ws_words (join_sp cs) = concat (map ws_words cs)"
proof (induction cs rule: join_sp.induct)
  case 1
  show ?case by (simp add: ws_words_def)
next
  case (2 c)
  show ?case by simp
next
  case (3 c d cs)
  then show ?case by (simp add: ws_words_sep isspace_space)
qed

lemma concat_map_concat: "concat (map f (concat gs)) = concat (map (\<lambda>g. concat (map f g)) gs)"
  by (induction gs) simp_all

text \<open>
  C2: for every text and every limit, the chunks joined with single spaces have the same
  whitespace-separated words, in the same order, as the text.
\<close>

theorem chunk_text_rejoin: "ws_words (join_sp (chunk_text text n)) = ws_words text"
proof -
  have "ws_words (join_sp (chunk_text text n))
      = concat (map (\<lambda>g. ws_words (strip (buf g))) (chunk_groups text n))"
    by (simp add: ws_words_join_sp chunk_text_groups comp_def)
  also have "\<dots> = concat (map (\<lambda>g. concat (map ws_words g)) (chunk_groups text n))"
    by (simp only: ws_words_strip ws_words_buf)
  also have "\<dots> = concat (map ws_words (concat (chunk_groups text n)))"
    by (simp only: concat_map_concat)
  also have "\<dots> = ws_words text"
    by (simp only: chunk_groups_concat ws_words_split_sp)
  finally show ?thesis .
qed

theorem chunk_text_rejoin_witness:
  "ws_words (join_sp (chunk_text (str_of ''a  bc d'') 2)) = [str_of ''a'', str_of ''bc'', str_of ''d'']
   \<and> ws_words (str_of ''a  bc d'') = [str_of ''a'', str_of ''bc'', str_of ''d'']"
  using chunk_text_rejoin [of "str_of ''a  bc d''" 2]
  by (simp add: chunk_eval ws_words_def)

section \<open>What each function adds to the trace\<close>

lemma filter_store_in_pinecone:
  assumes "\<And>n. \<not> P (OpenIndex n)" and "\<And>i v c. \<not> P (Upsert i v c)" and "\<And>s. \<not> P (Print s)"
  shows "filter P (store_in_pinecone env tr v c i) = filter P tr"
  by (simp add: store_in_pinecone_def store_failed_def Let_def assms split: sum.splits)

lemma filter_process_chunks:
  assumes "\<And>t. \<not> P (Embed t)"
    and "\<And>n. \<not> P (OpenIndex n)" and "\<And>i v c. \<not> P (Upsert i v c)" and "\<And>s. \<not> P (Print s)"
  shows "filter P (fst (process_chunks env fn tr ics)) = filter P tr"
proof (induction ics arbitrary: tr)
  case Nil
  show ?case by simp
next
  case (Cons ic ics)
  obtain i c where ic: "ic = (i, c)" by (cases ic)
  show ?case
  proof (cases "ext_embed env (tr @ [Embed c])")
    case (Inl e)
    then show ?thesis by (simp add: ic get_embeddings_def assms(1))
  next
    case (Inr v)
    have "filter P (store_in_pinecone env (tr @ [Embed c]) v c (chunk_id fn i)) = filter P tr"
      by (simp add: filter_store_in_pinecone [of P, OF assms(2-4)] assms(1))
    with Inr Cons.IH show ?thesis by (simp add: ic get_embeddings_def)
  qed
qed

lemma filter_process_text:
  assumes "\<And>t. \<not> P (Embed t)"
    and "\<And>n. \<not> P (OpenIndex n)" and "\<And>i v c. \<not> P (Upsert i v c)" and "\<And>s. \<not> P (Print s)"
  shows "filter P (fst (process_text env tr text fn)) = filter P tr"
  unfolding process_text_def by (rule filter_process_chunks [of P, OF assms])

lemma filter_file_failed:
  "(\<And>s. \<not> P (Print s)) \<Longrightarrow> filter P (fst (file_failed env tr e)) = filter P tr"
  by (simp add: file_failed_def Let_def)

lemma filter_process_file:
  assumes "\<And>t. \<not> P (Embed t)"
    and "\<And>n. \<not> P (OpenIndex n)" and "\<And>i v c. \<not> P (Upsert i v c)" and "\<And>s. \<not> P (Print s)"
  shows "filter P (fst (process_file env tr fp f)) = filter P (tr @ [ReadFile fp])"
proof (cases "ext_read env (tr @ [ReadFile fp])")
  case (Inl e)
  then show ?thesis by (simp add: process_file_def filter_file_failed assms(4))
next
  case (Inr data)
  let ?tr = "tr @ [ReadFile fp, Print (str_of ''Processing file: '' @ f)]"
  show ?thesis
  proof (cases "ext_print env ?tr")
    case (Inl e)
    with Inr show ?thesis by (simp add: process_file_def filter_file_failed assms(4))
  next
    case p: (Inr u)
    obtain tr3 r where pt: "process_text env ?tr data f = (tr3, r)"
      by (cases "process_text env ?tr data f")
    from filter_process_text [of P env ?tr data f, OF assms] pt
    have "filter P tr3 = filter P ?tr" by simp
    with Inr p pt show ?thesis
      by (simp add: process_file_def filter_file_failed assms(4) split: sum.splits)
  qed
qed

lemma filter_process_files:
  assumes "\<And>t. \<not> P (Embed t)"
    and "\<And>n. \<not> P (OpenIndex n)" and "\<And>i v c. \<not> P (Upsert i v c)" and "\<And>s. \<not> P (Print s)"
    and "\<And>p. \<not> P (ReadFile p)"
  shows "filter P (fst (process_files env dir tr files)) = filter P tr"
proof (induction files arbitrary: tr)
  case Nil
  show ?case by simp
next
  case (Cons f files)
  obtain tr1 r where pf: "process_file env tr (path_join dir f) f = (tr1, r)"
    by (cases "process_file env tr (path_join dir f) f")
  from filter_process_file [of P env tr "path_join dir f" f, OF assms(1-4)] pf
  have "filter P tr1 = filter P tr" by (simp add: assms(5))
  with Cons.IH pf show ?case by (simp add: Let_def split: sum.splits)
qed

lemma filter_process_directory:
  assumes "\<And>t. \<not> P (Embed t)"
    and "\<And>n. \<not> P (OpenIndex n)" and "\<And>i v c. \<not> P (Upsert i v c)" and "\<And>s. \<not> P (Print s)"
    and "\<And>p. \<not> P (ReadFile p)" and "\<And>d. \<not> P (ListDir d)"
  shows "filter P (fst (process_directory env tr dir)) = filter P tr"
proof (cases "ext_listdir env (tr @ [ListDir dir])")
  case (Inl e)
  then show ?thesis by (simp add: process_directory_def directory_failed_def Let_def assms(4,6))
next
  case (Inr files)
  obtain tr2 r where pf: "process_files env dir (tr @ [ListDir dir]) files = (tr2, r)"
    by (cases "process_files env dir (tr @ [ListDir dir]) files")
  from filter_process_files [of P env dir "tr @ [ListDir dir]" files, OF assms(1-5)] pf
  have "filter P tr2 = filter P tr" by (simp add: assms(6))
  with Inr pf show ?thesis
    by (simp add: process_directory_def directory_failed_def Let_def assms(4) split: sum.splits)
qed

lemma filter_print_match: "(\<And>s. \<not> P (Print s)) \<Longrightarrow> filter P (concat (map print_match ims)) = []"
  by (induction ims) (auto simp: print_match_def)

lemma filter_search_in_pinecone:
  assumes "\<And>t. \<not> P (Embed t)"
    and "\<And>n. \<not> P (OpenIndex n)" and "\<And>v k. \<not> P (Query v k)" and "\<And>s. \<not> P (Print s)"
  shows "filter P (fst (search_in_pinecone env tr q)) = filter P tr"
  by (simp add: search_in_pinecone_def get_embeddings_def search_failed_def Let_def assms
      filter_print_match [of P, OF assms(4)] split: sum.splits)

lemma not_create_after_provision:
  "filter is_create (fst (after_provision env tr)) = filter is_create tr"
proof -
  have s: "filter is_create (fst (search_in_pinecone env tr' q)) = filter is_create tr'" for tr' q
    by (rule filter_search_in_pinecone) simp_all
  have d: "filter is_create (fst (process_directory env tr' dir)) = filter is_create tr'" for tr' dir
    by (rule filter_process_directory) simp_all
  have i: "filter is_create (fst (ingest_and_search env tr')) = filter is_create tr'" for tr'
  proof -
    obtain tr1 r where pd: "process_directory env tr' directory_path = (tr1, r)"
      by (cases "process_directory env tr' directory_path")
    obtain tr2 r2 where sr: "search_in_pinecone env tr1 user_query = (tr2, r2)"
      by (cases "search_in_pinecone env tr1 user_query")
    from d [of tr' directory_path] pd have 1: "filter is_create tr1 = filter is_create tr'" by simp
    from s [of tr1 user_query] sr have 2: "filter is_create tr2 = filter is_create tr1" by simp
    from pd sr 1 2 show ?thesis by (simp add: ingest_and_search_def split: sum.splits)
  qed
  have l: "filter is_create (fst (load_model env tr')) = filter is_create tr'" for tr'
    by (simp add: load_model_def Let_def i split: sum.splits)
  show ?thesis
    by (simp add: after_provision_def Let_def l split: option.splits sum.splits)
qed

section \<open>Every function extends the trace\<close>

lemma store_in_pinecone_extends: "\<exists>ex. store_in_pinecone env tr v c i = tr @ ex"
  by (simp add: store_in_pinecone_def store_failed_def Let_def split: sum.splits)

lemma process_chunks_extends: "\<exists>ex. fst (process_chunks env fn tr ics) = tr @ ex"
proof (induction ics arbitrary: tr)
  case Nil
  show ?case by simp
next
  case (Cons ic ics)
  obtain i c where ic: "ic = (i, c)" by (cases ic)
  show ?case
  proof (cases "ext_embed env (tr @ [Embed c])")
    case (Inl e)
    then show ?thesis by (simp add: ic get_embeddings_def)
  next
    case (Inr v)
    from store_in_pinecone_extends [of env "tr @ [Embed c]" v c "chunk_id fn i"] obtain ex1
      where 1: "store_in_pinecone env (tr @ [Embed c]) v c (chunk_id fn i) = (tr @ [Embed c]) @ ex1" ..
    from Cons.IH [of "(tr @ [Embed c]) @ ex1"] obtain ex2
      where "fst (process_chunks env fn ((tr @ [Embed c]) @ ex1) ics) = ((tr @ [Embed c]) @ ex1) @ ex2" ..
    with Inr 1 show ?thesis by (simp add: ic get_embeddings_def)
  qed
qed

lemma file_failed_extends: "\<exists>ex. fst (file_failed env tr e) = tr @ ex"
  by (simp add: file_failed_def Let_def)

lemma process_file_extends: "\<exists>ex. fst (process_file env tr fp f) = tr @ ex"
proof (cases "ext_read env (tr @ [ReadFile fp])")
  case (Inl e)
  then show ?thesis by (simp add: process_file_def file_failed_def Let_def)
next
  case (Inr data)
  let ?tr = "tr @ [ReadFile fp, Print (str_of ''Processing file: '' @ f)]"
  show ?thesis
  proof (cases "ext_print env ?tr")
    case (Inl e)
    with Inr show ?thesis by (simp add: process_file_def file_failed_def Let_def)
  next
    case p: (Inr u)
    obtain tr3 r where pt: "process_text env ?tr data f = (tr3, r)"
      by (cases "process_text env ?tr data f")
    from process_chunks_extends [of env f ?tr "enumerate 0 (chunk_text data 512)"] pt
    obtain ex where "tr3 = ?tr @ ex" by (auto simp: process_text_def)
    with Inr p pt show ?thesis
      by (simp add: process_file_def file_failed_def Let_def split: sum.splits)
  qed
qed

lemma process_files_extends: "\<exists>ex. fst (process_files env dir tr files) = tr @ ex"
proof (induction files arbitrary: tr)
  case Nil
  show ?case by simp
next
  case (Cons f files)
  obtain tr1 r where pf: "process_file env tr (path_join dir f) f = (tr1, r)"
    by (cases "process_file env tr (path_join dir f) f")
  from process_file_extends [of env tr "path_join dir f" f] pf obtain ex1
    where 1: "tr1 = tr @ ex1" by auto
  from Cons.IH [of tr1] obtain ex2
    where 2: "fst (process_files env dir tr1 files) = tr1 @ ex2" ..
  from Cons.IH [of tr] obtain ex3
    where 3: "fst (process_files env dir tr files) = tr @ ex3" ..
  from pf 1 2 3 show ?case by (simp add: Let_def split: sum.splits)
qed

lemma process_directory_extends:
  "\<exists>ex. fst (process_directory env tr dir) = tr @ ListDir dir # ex"
proof (cases "ext_listdir env (tr @ [ListDir dir])")
  case (Inl e)
  then show ?thesis by (simp add: process_directory_def directory_failed_def Let_def)
next
  case (Inr files)
  obtain tr2 r where pf: "process_files env dir (tr @ [ListDir dir]) files = (tr2, r)"
    by (cases "process_files env dir (tr @ [ListDir dir]) files")
  from process_files_extends [of env dir "tr @ [ListDir dir]" files] pf obtain ex
    where "tr2 = (tr @ [ListDir dir]) @ ex" by auto
  with Inr pf show ?thesis
    by (simp add: process_directory_def directory_failed_def Let_def split: sum.splits)
qed

lemma search_in_pinecone_extends: "\<exists>ex. fst (search_in_pinecone env tr q) = tr @ ex"
  by (simp add: search_in_pinecone_def get_embeddings_def search_failed_def Let_def
      split: sum.splits)

lemma ingest_and_search_extends:
  "\<exists>ex. fst (ingest_and_search env tr) = tr @ ListDir directory_path # ex"
proof -
  obtain tr1 r where pd: "process_directory env tr directory_path = (tr1, r)"
    by (cases "process_directory env tr directory_path")
  from process_directory_extends [of env tr directory_path] pd obtain ex1
    where 1: "tr1 = tr @ ListDir directory_path # ex1" by auto
  obtain tr2 r2 where sr: "search_in_pinecone env tr1 user_query = (tr2, r2)"
    by (cases "search_in_pinecone env tr1 user_query")
  from search_in_pinecone_extends [of env tr1 user_query] sr obtain ex2
    where 2: "tr2 = tr1 @ ex2" by auto
  from pd sr 1 2 show ?thesis by (simp add: ingest_and_search_def split: sum.splits)
qed

section \<open>Index provisioning\<close>

text \<open>
  C6: once the store client exists,
  \<^item> a failure of the existence check or of the creation call is printed and the script
    ends with \<^verbatim>\<open>exit(1)\<close>; its trace stops at that print and holds no access to the
    directory or to a file;
  \<^item> if the index name is among the names listed, the script goes on with the steps after
    the provisioning, and its whole trace holds no creation call;
  \<^item> if moreover the token is set and the login and the loading of the tokenizer and of
    the model return, the next call after them is the listing of \<^verbatim>\<open>./documents\<close>: the
    processing of the files has begun.
\<close>

theorem provisioning_failure_exits:
  assumes "ext_client env [PineconeClient (api_key env)] = Inr ()"
  shows "(ext_list_indexes env [PineconeClient (api_key env), ListIndexes] = Inl e \<longrightarrow>
            script env =
              ([PineconeClient (api_key env), ListIndexes,
                Print (str_of ''Error creating Pinecone index: '' @ exn_str e)], Exited 1)
            \<and> filter is_file_access (fst (script env)) = [])
       \<and> (ext_list_indexes env [PineconeClient (api_key env), ListIndexes] = Inr names
          \<and> (\<forall>name. index_name env = Some name \<longrightarrow> name \<notin> set names)
          \<and> ext_create_index env
               [PineconeClient (api_key env), ListIndexes,
                CreateIndex (index_name env) 4096 (str_of ''cosine'') (str_of ''aws'')
                  (environment env)] = Inl e \<longrightarrow>
            script env =
              ([PineconeClient (api_key env), ListIndexes,
                CreateIndex (index_name env) 4096 (str_of ''cosine'') (str_of ''aws'')
                  (environment env),
                Print (str_of ''Error creating Pinecone index: '' @ exn_str e)], Exited 1)
            \<and> filter is_file_access (fst (script env)) = [])
       \<and> (ext_list_indexes env [PineconeClient (api_key env), ListIndexes] = Inr names
          \<and> index_name env = Some name \<and> name \<in> set names \<longrightarrow>
            script env = after_provision env [PineconeClient (api_key env), ListIndexes]
            \<and> filter is_create (fst (script env)) = [])
       \<and> (ext_list_indexes env [PineconeClient (api_key env), ListIndexes] = Inr names
          \<and> index_name env = Some name \<and> name \<in> set names
          \<and> hf_token env = Some token \<and> token \<noteq> []
          \<and> ext_login env [PineconeClient (api_key env), ListIndexes, HfLogin token] = Inr ()
          \<and> ext_tokenizer env
               [PineconeClient (api_key env), ListIndexes, HfLogin token,
                LoadTokenizer model_id] = Inr ()
          \<and> ext_model env
               [PineconeClient (api_key env), ListIndexes, HfLogin token,
                LoadTokenizer model_id, LoadModel model_id] = Inr () \<longrightarrow>
            (\<exists>rest. fst (script env) =
               [PineconeClient (api_key env), ListIndexes, HfLogin token,
                LoadTokenizer model_id, LoadModel model_id, ListDir directory_path] @ rest))"
proof (intro conjI impI)
  assume "ext_list_indexes env [PineconeClient (api_key env), ListIndexes] = Inl e"
  then show "script env =
      ([PineconeClient (api_key env), ListIndexes,
        Print (str_of ''Error creating Pinecone index: '' @ exn_str e)], Exited 1)"
    by (simp add: script_def assms provision_def provision_failed_def)
  then show "filter is_file_access (fst (script env)) = []" by simp
next
  assume a: "ext_list_indexes env [PineconeClient (api_key env), ListIndexes] = Inr names
          \<and> (\<forall>name. index_name env = Some name \<longrightarrow> name \<notin> set names)
          \<and> ext_create_index env
               [PineconeClient (api_key env), ListIndexes,
                CreateIndex (index_name env) 4096 (str_of ''cosine'') (str_of ''aws'')
                  (environment env)] = Inl e"
  then show "script env =
      ([PineconeClient (api_key env), ListIndexes,
        CreateIndex (index_name env) 4096 (str_of ''cosine'') (str_of ''aws'') (environment env),
        Print (str_of ''Error creating Pinecone index: '' @ exn_str e)], Exited 1)"
    by (cases "index_name env") (simp_all add: script_def assms provision_def provision_failed_def)
  then show "filter is_file_access (fst (script env)) = []" by simp
next
  assume a: "ext_list_indexes env [PineconeClient (api_key env), ListIndexes] = Inr names
          \<and> index_name env = Some name \<and> name \<in> set names"
  then show s: "script env = after_provision env [PineconeClient (api_key env), ListIndexes]"
    by (simp add: script_def assms provision_def)
  show "filter is_create (fst (script env)) = []"
    by (simp add: s not_create_after_provision)
next
  let ?tr = "[PineconeClient (api_key env), ListIndexes, HfLogin token,
             LoadTokenizer model_id, LoadModel model_id]"
  assume a: "ext_list_indexes env [PineconeClient (api_key env), ListIndexes] = Inr names
          \<and> index_name env = Some name \<and> name \<in> set names
          \<and> hf_token env = Some token \<and> token \<noteq> []
          \<and> ext_login env [PineconeClient (api_key env), ListIndexes, HfLogin token] = Inr ()
          \<and> ext_tokenizer env
               [PineconeClient (api_key env), ListIndexes, HfLogin token,
                LoadTokenizer model_id] = Inr ()
          \<and> ext_model env
               [PineconeClient (api_key env), ListIndexes, HfLogin token,
                LoadTokenizer model_id, LoadModel model_id] = Inr ()"
  then have "script env = ingest_and_search env ?tr"
    by (simp add: script_def assms provision_def after_provision_def load_model_def)
  moreover from ingest_and_search_extends [of env ?tr] obtain ex
    where "fst (ingest_and_search env ?tr) = ?tr @ ListDir directory_path # ex" ..
  ultimately show "\<exists>rest. fst (script env) =
      [PineconeClient (api_key env), ListIndexes, HfLogin token,
       LoadTokenizer model_id, LoadModel model_id, ListDir directory_path] @ rest"
    by simp
qed

theorem provisioning_failure_exits_witness:
  "script (demo_env\<lparr>ext_list_indexes := \<lambda>h. Inl (Exn (str_of ''down''))\<rparr>) =
     ([PineconeClient (Some (str_of ''key'')), ListIndexes,
       Print (str_of ''Error creating Pinecone index: down'')], Exited 1)
   \<and> script (demo_env\<lparr>ext_list_indexes := \<lambda>h. Inr [],
                        ext_create_index := \<lambda>h. Inl (Exn (str_of ''quota''))\<rparr>) =
     ([PineconeClient (Some (str_of ''key'')), ListIndexes,
       CreateIndex (Some (str_of ''docs'')) 4096 (str_of ''cosine'') (str_of ''aws'')
         (Some (str_of ''us-east-1'')),
       Print (str_of ''Error creating Pinecone index: quota'')], Exited 1)
   \<and> script demo_env = after_provision demo_env [PineconeClient (Some (str_of ''key'')), ListIndexes]
   \<and> filter is_create (fst (script demo_env)) = []
   \<and> take 6 (fst (script demo_env)) =
       [PineconeClient (Some (str_of ''key'')), ListIndexes, HfLogin (str_of ''token''),
        LoadTokenizer model_id, LoadModel model_id, ListDir directory_path]"
proof -
  let ?a = "demo_env\<lparr>ext_list_indexes := \<lambda>h. Inl (Exn (str_of ''down''))\<rparr>"
  let ?b = "demo_env\<lparr>ext_list_indexes := \<lambda>h. Inr [],
                      ext_create_index := \<lambda>h. Inl (Exn (str_of ''quota''))\<rparr>"
  have ca: "ext_client ?a [PineconeClient (api_key ?a)] = Inr ()" by (simp add: demo_env_def)
  have la: "ext_list_indexes ?a [PineconeClient (api_key ?a), ListIndexes] = Inl (Exn (str_of ''down''))"
    by (simp add: demo_env_def)
  from provisioning_failure_exits [OF ca, of "Exn (str_of ''down'')" "[]" "[]"] la
  have "script ?a = ([PineconeClient (api_key ?a), ListIndexes,
      Print (str_of ''Error creating Pinecone index: '' @ exn_str (Exn (str_of ''down'')))], Exited 1)"
    by blast
  then have a: "script ?a = ([PineconeClient (Some (str_of ''key'')), ListIndexes,
      Print (str_of ''Error creating Pinecone index: down'')], Exited 1)"
    by (simp add: demo_env_def str_of_def)
  have cb: "ext_client ?b [PineconeClient (api_key ?b)] = Inr ()" by (simp add: demo_env_def)
  have lb: "ext_list_indexes ?b [PineconeClient (api_key ?b), ListIndexes] = Inr []
      \<and> (\<forall>name. index_name ?b = Some name \<longrightarrow> name \<notin> set [])
      \<and> ext_create_index ?b
           [PineconeClient (api_key ?b), ListIndexes,
            CreateIndex (index_name ?b) 4096 (str_of ''cosine'') (str_of ''aws'') (environment ?b)]
         = Inl (Exn (str_of ''quota''))"
    by (simp add: demo_env_def)
  from provisioning_failure_exits [OF cb, of "Exn (str_of ''quota'')" "[]" "[]"] lb
  have "script ?b = ([PineconeClient (api_key ?b), ListIndexes,
      CreateIndex (index_name ?b) 4096 (str_of ''cosine'') (str_of ''aws'') (environment ?b),
      Print (str_of ''Error creating Pinecone index: '' @ exn_str (Exn (str_of ''quota'')))], Exited 1)"
    by blast
  then have b: "script ?b = ([PineconeClient (Some (str_of ''key'')), ListIndexes,
      CreateIndex (Some (str_of ''docs'')) 4096 (str_of ''cosine'') (str_of ''aws'')
        (Some (str_of ''us-east-1'')),
      Print (str_of ''Error creating Pinecone index: quota'')], Exited 1)"
    by (simp add: demo_env_def str_of_def)
  have cc: "ext_client demo_env [PineconeClient (api_key demo_env)] = Inr ()"
    by (simp add: demo_env_def)
  have lc: "ext_list_indexes demo_env [PineconeClient (api_key demo_env), ListIndexes] = Inr [str_of ''docs'']
      \<and> index_name demo_env = Some (str_of ''docs'') \<and> str_of ''docs'' \<in> set [str_of ''docs'']"
    by (simp add: demo_env_def)
  from provisioning_failure_exits [OF cc, of "Exn []" "[str_of ''docs'']" "str_of ''docs''"] lc
  have c0: "script demo_env = after_provision demo_env [PineconeClient (api_key demo_env), ListIndexes]
      \<and> filter is_create (fst (script demo_env)) = []"
    by blast
  have k: "api_key demo_env = Some (str_of ''key'')" by (simp add: demo_env_def)
  have c: "script demo_env =
        after_provision demo_env [PineconeClient (Some (str_of ''key'')), ListIndexes]
      \<and> filter is_create (fst (script demo_env)) = []"
    using c0 unfolding k .
  have ld: "ext_list_indexes demo_env [PineconeClient (api_key demo_env), ListIndexes] = Inr [str_of ''docs'']
      \<and> index_name demo_env = Some (str_of ''docs'') \<and> str_of ''docs'' \<in> set [str_of ''docs'']
      \<and> hf_token demo_env = Some (str_of ''token'') \<and> str_of ''token'' \<noteq> []
      \<and> ext_login demo_env
           [PineconeClient (api_key demo_env), ListIndexes, HfLogin (str_of ''token'')] = Inr ()
      \<and> ext_tokenizer demo_env
           [PineconeClient (api_key demo_env), ListIndexes, HfLogin (str_of ''token''),
            LoadTokenizer model_id] = Inr ()
      \<and> ext_model demo_env
           [PineconeClient (api_key demo_env), ListIndexes, HfLogin (str_of ''token''),
            LoadTokenizer model_id, LoadModel model_id] = Inr ()"
    by (simp add: demo_env_def str_of_def)
  from provisioning_failure_exits
         [OF cc, of "Exn []" "[str_of ''docs'']" "str_of ''docs''" "str_of ''token''"] ld
  obtain rest where "fst (script demo_env) =
      [PineconeClient (api_key demo_env), ListIndexes, HfLogin (str_of ''token''),
       LoadTokenizer model_id, LoadModel model_id, ListDir directory_path] @ rest"
    by blast
  then have d: "take 6 (fst (script demo_env)) =
      [PineconeClient (Some (str_of ''key'')), ListIndexes, HfLogin (str_of ''token''),
       LoadTokenizer model_id, LoadModel model_id, ListDir directory_path]"
    by (simp add: k)
  from a b c d show ?thesis by blast
qed

section \<open>The ids of the stored chunks\<close>

lemma upserts_append: "upserts (a @ b) = upserts a @ upserts b"
  by (induction a rule: upserts.induct) simp_all

lemma upserts_store_in_pinecone:
  assumes "ext_index env (tr @ [OpenIndex (index_name env)]) = Inr u"
  shows "upserts (store_in_pinecone env tr v c i) = upserts tr @ [(i, v, c)]"
  by (simp add: store_in_pinecone_def store_failed_def Let_def assms upserts_append
      split: sum.splits)

lemma process_chunks_upserts:
  assumes emb: "\<forall>h. \<exists>v. ext_embed env h = Inr v \<and> Q v"
    and idx: "\<forall>h. \<exists>u. ext_index env h = Inr u"
  shows "\<exists>rs. upserts (fst (process_chunks env fn tr ics)) = upserts tr @ rs
            \<and> map (\<lambda>(i, v, c). (i, c)) rs = map (\<lambda>(i, c). (chunk_id fn i, c)) ics
            \<and> (\<forall>(i, v, c)\<in>set rs. Q v)"
proof (induction ics arbitrary: tr)
  case Nil
  show ?case by simp
next
  case (Cons ic ics)
  obtain i c where ic: "ic = (i, c)" by (cases ic)
  from emb obtain v where v: "ext_embed env (tr @ [Embed c]) = Inr v" and q: "Q v" by blast
  from idx obtain u where u: "ext_index env ((tr @ [Embed c]) @ [OpenIndex (index_name env)]) = Inr u"
    by blast
  let ?tr = "store_in_pinecone env (tr @ [Embed c]) v c (chunk_id fn i)"
  have st: "upserts ?tr = upserts tr @ [(chunk_id fn i, v, c)]"
    by (simp add: upserts_store_in_pinecone [OF u] upserts_append)
  from Cons.IH [of ?tr] obtain rs
    where rs: "upserts (fst (process_chunks env fn ?tr ics)) = upserts ?tr @ rs"
      and ids: "map (\<lambda>(i, v, c). (i, c)) rs = map (\<lambda>(i, c). (chunk_id fn i, c)) ics"
      and qs: "\<forall>(i, v, c)\<in>set rs. Q v" by blast
  have "upserts (fst (process_chunks env fn tr (ic # ics))) = upserts tr @ ((chunk_id fn i, v, c) # rs)"
    by (simp add: ic get_embeddings_def v rs st)
  moreover have "map (\<lambda>(i, v, c). (i, c)) ((chunk_id fn i, v, c) # rs)
      = map (\<lambda>(i, c). (chunk_id fn i, c)) (ic # ics)"
    by (simp add: ic ids)
  moreover have "\<forall>(i, v, c)\<in>set ((chunk_id fn i, v, c) # rs). Q v"
    using q qs by simp
  ultimately show ?case by blast
qed


lemma str_nat_digit: "n < 10 \<Longrightarrow> str_nat n = [48 + n]"
  by (simp add: str_nat.simps)






section \<open>Empty embeddings\<close>





section \<open>The directory walker\<close>

lemma process_files_txt_entries:
  "process_files env dir tr files = process_files env dir tr (txt_entries dir files)"
  by (induction files arbitrary: tr) (simp_all add: txt_entries_def Let_def)

lemma process_files_no_txt:
  "txt_entries dir files = [] \<Longrightarrow> process_files env dir tr files = (tr, Inr ())"
  using process_files_txt_entries [of env dir tr files] by simp

lemma reads_process_file:
  "filter is_read (fst (process_file env tr fp f)) = filter is_read tr @ [ReadFile fp]"
proof -
  have "filter is_read (fst (process_file env tr fp f)) = filter is_read (tr @ [ReadFile fp])"
    by (rule filter_process_file) simp_all
  then show ?thesis by simp
qed

lemma reads_process_files:
  "\<exists>k. filter is_read (fst (process_files env dir tr files)) =
         filter is_read tr @ map (\<lambda>f. ReadFile (path_join dir f)) (take k (txt_entries dir files))"
proof (induction files arbitrary: tr)
  case Nil
  show ?case by (simp add: txt_entries_def)
next
  case (Cons f files)
  show ?case
  proof (cases "path_suffix (path_join dir f) = str_of ''.txt''")
    case False
    with Cons.IH [of tr] show ?thesis by (simp add: txt_entries_def)
  next
    case True
    obtain tr1 r where pf: "process_file env tr (path_join dir f) f = (tr1, r)"
      by (cases "process_file env tr (path_join dir f) f")
    from reads_process_file [of env tr "path_join dir f" f] pf
    have r1: "filter is_read tr1 = filter is_read tr @ [ReadFile (path_join dir f)]" by simp
    show ?thesis
    proof (cases r)
      case (Inl e)
      with True pf r1 have "filter is_read (fst (process_files env dir tr (f # files))) =
          filter is_read tr @ map (\<lambda>f. ReadFile (path_join dir f))
            (take (Suc 0) (txt_entries dir (f # files)))"
        by (simp add: txt_entries_def)
      then show ?thesis ..
    next
      case (Inr u)
      from Cons.IH [of tr1] obtain k where
        "filter is_read (fst (process_files env dir tr1 files)) =
           filter is_read tr1 @ map (\<lambda>f. ReadFile (path_join dir f)) (take k (txt_entries dir files))" ..
      with True pf r1 Inr have "filter is_read (fst (process_files env dir tr (f # files))) =
          filter is_read tr @ map (\<lambda>f. ReadFile (path_join dir f))
            (take (Suc k) (txt_entries dir (f # files)))"
        by (simp add: txt_entries_def)
      then show ?thesis ..
    qed
  qed
qed

lemma reads_process_directory:
  assumes "ext_listdir env (tr @ [ListDir dir]) = Inr files"
  shows "\<exists>k. filter is_read (fst (process_directory env tr dir)) =
         filter is_read tr @ map (\<lambda>f. ReadFile (path_join dir f)) (take k (txt_entries dir files))"
proof -
  obtain tr2 r where pf: "process_files env dir (tr @ [ListDir dir]) files = (tr2, r)"
    by (cases "process_files env dir (tr @ [ListDir dir]) files")
  from reads_process_files [of env dir "tr @ [ListDir dir]" files] pf obtain k where
    "filter is_read tr2 =
       filter is_read tr @ map (\<lambda>f. ReadFile (path_join dir f)) (take k (txt_entries dir files))"
    by auto
  with pf assms have "filter is_read (fst (process_directory env tr dir)) =
      filter is_read tr @ map (\<lambda>f. ReadFile (path_join dir f)) (take k (txt_entries dir files))"
    by (simp add: process_directory_def directory_failed_def Let_def split: sum.splits)
  then show ?thesis ..
qed

subsection \<open>A walk where every call returns\<close>

lemma stored_append: "stored (a @ b) = stored a @ stored b"
  by (simp add: stored_def upserts_append)

lemma process_chunks_returns:
  assumes "\<forall>h. \<exists>v. ext_embed env h = Inr v"
  shows "snd (process_chunks env fn tr ics) = Inr ()"
proof (induction ics arbitrary: tr)
  case Nil
  show ?case by simp
next
  case (Cons ic ics)
  obtain i c where ic: "ic = (i, c)" by (cases ic)
  from assms obtain v where "ext_embed env (tr @ [Embed c]) = Inr v" by blast
  with Cons.IH show ?case by (simp add: ic get_embeddings_def)
qed

lemma process_text_stored:
  assumes "\<forall>h. \<exists>v. ext_embed env h = Inr v" and "\<forall>h. \<exists>u. ext_index env h = Inr u"
  shows "snd (process_text env tr text fn) = Inr ()"
    and "stored (fst (process_text env tr text fn)) =
         stored tr @ map (\<lambda>(i, chunk). (chunk_id fn i, chunk)) (enumerate 0 (chunk_text text 512))"
proof -
  show "snd (process_text env tr text fn) = Inr ()"
    unfolding process_text_def by (rule process_chunks_returns [OF assms(1)])
  from assms(1) have "\<forall>h. \<exists>v. ext_embed env h = Inr v \<and> True" by simp
  from process_chunks_upserts [of env "\<lambda>v. True", OF this assms(2), of fn tr
      "enumerate 0 (chunk_text text 512)"]
  obtain rs where rs: "upserts (fst (process_text env tr text fn)) = upserts tr @ rs"
    and ids: "map (\<lambda>(i, v, c). (i, c)) rs =
        map (\<lambda>(i, c). (chunk_id fn i, c)) (enumerate 0 (chunk_text text 512))"
    unfolding process_text_def by blast
  show "stored (fst (process_text env tr text fn)) =
      stored tr @ map (\<lambda>(i, chunk). (chunk_id fn i, chunk)) (enumerate 0 (chunk_text text 512))"
    by (simp add: stored_def rs ids)
qed

lemma process_file_returns:
  assumes "\<forall>h p. ext_read env (h @ [ReadFile p]) = Inr (content p)"
    and "\<forall>h. ext_print env h = Inr ()"
    and "\<forall>h. \<exists>v. ext_embed env h = Inr v" and "\<forall>h. \<exists>u. ext_index env h = Inr u"
  shows "snd (process_file env tr fp f) = Inr ()"
    and "stored (fst (process_file env tr fp f)) =
         stored tr @ map (\<lambda>(i, chunk). (chunk_id f i, chunk)) (enumerate 0 (chunk_text (content fp) 512))"
proof -
  let ?tr = "tr @ [ReadFile fp, Print (str_of ''Processing file: '' @ f)]"
  obtain tr3 r where pt: "process_text env ?tr (content fp) f = (tr3, r)"
    by (cases "process_text env ?tr (content fp) f")
  from process_text_stored [OF assms(3,4), of ?tr "content fp" f] pt
  have r: "r = Inr ()" and s: "stored tr3 =
      stored ?tr @ map (\<lambda>(i, chunk). (chunk_id f i, chunk)) (enumerate 0 (chunk_text (content fp) 512))"
    by simp_all
  have st: "stored ?tr = stored tr" by (simp add: stored_append) (simp add: stored_def)
  from assms(1) have rd: "ext_read env (tr @ [ReadFile fp]) = Inr (content fp)" by blast
  have pf: "process_file env tr fp f = (tr3, Inr ())"
    by (simp add: process_file_def Let_def rd assms(2) pt r)
  show "snd (process_file env tr fp f) = Inr ()" by (simp add: pf)
  show "stored (fst (process_file env tr fp f)) =
      stored tr @ map (\<lambda>(i, chunk). (chunk_id f i, chunk)) (enumerate 0 (chunk_text (content fp) 512))"
    by (simp add: pf s st)
qed

lemma process_files_returns:
  assumes "\<forall>h p. ext_read env (h @ [ReadFile p]) = Inr (content p)"
    and "\<forall>h. ext_print env h = Inr ()"
    and "\<forall>h. \<exists>v. ext_embed env h = Inr v" and "\<forall>h. \<exists>u. ext_index env h = Inr u"
  shows "snd (process_files env dir tr files) = Inr ()
       \<and> filter is_read (fst (process_files env dir tr files)) =
           filter is_read tr @ map (\<lambda>f. ReadFile (path_join dir f)) (txt_entries dir files)
       \<and> stored (fst (process_files env dir tr files)) =
           stored tr @ concat (map (\<lambda>f. map (\<lambda>(i, chunk). (chunk_id f i, chunk))
                                        (enumerate 0 (chunk_text (content (path_join dir f)) 512)))
                              (txt_entries dir files))"
proof (induction files arbitrary: tr)
  case Nil
  show ?case by (simp add: txt_entries_def)
next
  case (Cons f files)
  show ?case
  proof (cases "path_suffix (path_join dir f) = str_of ''.txt''")
    case False
    with Cons.IH [of tr] show ?thesis by (simp add: txt_entries_def)
  next
    case True
    obtain tr1 r where pf: "process_file env tr (path_join dir f) f = (tr1, r)"
      by (cases "process_file env tr (path_join dir f) f")
    from process_file_returns [OF assms, of tr "path_join dir f" f] pf
    have r: "r = Inr ()" and s: "stored tr1 =
        stored tr @ map (\<lambda>(i, chunk). (chunk_id f i, chunk))
                      (enumerate 0 (chunk_text (content (path_join dir f)) 512))"
      by simp_all
    from reads_process_file [of env tr "path_join dir f" f] pf
    have rd: "filter is_read tr1 = filter is_read tr @ [ReadFile (path_join dir f)]" by simp
    from True pf r have "process_files env dir tr (f # files) = process_files env dir tr1 files"
      by simp
    with Cons.IH [of tr1] True s rd show ?thesis by (simp add: txt_entries_def)
  qed
qed

subsection \<open>Whatever the calls answer, only the text files are stored\<close>

lemma stored_store_in_pinecone:
  "set (stored (store_in_pinecone env tr v c i)) \<subseteq> insert (i, c) (set (stored tr))"
proof -
  have "stored (store_in_pinecone env tr v c i) = stored tr
      \<or> stored (store_in_pinecone env tr v c i) = stored tr @ [(i, c)]"
    by (simp add: store_in_pinecone_def store_failed_def Let_def stored_def upserts_append
        split: sum.splits)
  then show ?thesis by auto
qed

lemma stored_process_chunks:
  "set (stored (fst (process_chunks env fn tr ics))) \<subseteq>
     set (stored tr) \<union> {(chunk_id fn i, c) | i c. True}"
proof (induction ics arbitrary: tr)
  case Nil
  show ?case by simp
next
  case (Cons ic ics)
  obtain i c where ic: "ic = (i, c)" by (cases ic)
  have e: "stored (tr @ [Embed c]) = stored tr" by (simp add: stored_def upserts_append)
  show ?case
  proof (cases "ext_embed env (tr @ [Embed c])")
    case (Inl x)
    then show ?thesis by (simp add: ic get_embeddings_def e)
  next
    case (Inr v)
    let ?tr = "store_in_pinecone env (tr @ [Embed c]) v c (chunk_id fn i)"
    from stored_store_in_pinecone [of env "tr @ [Embed c]" v c "chunk_id fn i"]
    have "set (stored ?tr) \<subseteq> set (stored tr) \<union> {(chunk_id fn i, c) | i c. True}"
      by (auto simp: e)
    with Cons.IH [of ?tr]
    have "set (stored (fst (process_chunks env fn ?tr ics))) \<subseteq>
        set (stored tr) \<union> {(chunk_id fn i, c) | i c. True}"
      by blast
    with Inr show ?thesis by (simp add: ic get_embeddings_def)
  qed
qed

lemma stored_file_failed: "stored (fst (file_failed env tr e)) = stored tr"
  by (simp add: file_failed_def Let_def stored_def upserts_append)

lemma stored_process_file:
  "set (stored (fst (process_file env tr fp f))) \<subseteq>
     set (stored tr) \<union> {(chunk_id f i, c) | i c. True}"
proof (cases "ext_read env (tr @ [ReadFile fp])")
  case (Inl e)
  then show ?thesis
    by (simp add: process_file_def stored_file_failed) (auto simp: stored_def upserts_append)
next
  case (Inr data)
  let ?tr = "tr @ [ReadFile fp, Print (str_of ''Processing file: '' @ f)]"
  have s0: "stored ?tr = stored tr" by (simp add: stored_def upserts_append)
  have s1: "stored (tr @ [ReadFile fp]) = stored tr" by (simp add: stored_def upserts_append)
  show ?thesis
  proof (cases "ext_print env ?tr")
    case (Inl e)
    with Inr show ?thesis by (simp add: process_file_def stored_file_failed s0)
  next
    case p: (Inr u)
    obtain tr3 r where pt: "process_text env ?tr data f = (tr3, r)"
      by (cases "process_text env ?tr data f")
    from stored_process_chunks [of env f ?tr "enumerate 0 (chunk_text data 512)"] pt
    have "set (stored tr3) \<subseteq> set (stored tr) \<union> {(chunk_id f i, c) | i c. True}"
      by (simp add: process_text_def s0)
    with Inr p pt show ?thesis
      by (simp add: process_file_def stored_file_failed split: sum.splits)
  qed
qed

lemma stored_process_files:
  "set (stored (fst (process_files env dir tr files))) \<subseteq>
     set (stored tr) \<union> {(chunk_id f i, c) | f i c. f \<in> set (txt_entries dir files)}"
proof (induction files arbitrary: tr)
  case Nil
  show ?case by simp
next
  case (Cons f files)
  show ?case
  proof (cases "path_suffix (path_join dir f) = str_of ''.txt''")
    case False
    with Cons.IH [of tr] show ?thesis by (simp add: txt_entries_def)
  next
    case True
    obtain tr1 r where pf: "process_file env tr (path_join dir f) f = (tr1, r)"
      by (cases "process_file env tr (path_join dir f) f")
    from stored_process_file [of env tr "path_join dir f" f] pf
    have 1: "set (stored tr1) \<subseteq> set (stored tr) \<union> {(chunk_id f i, c) | i c. True}" by simp
    have t: "txt_entries dir (f # files) = f # txt_entries dir files"
      using True by (simp add: txt_entries_def)
    show ?thesis
    proof (cases r)
      case (Inl e)
      with True pf 1 show ?thesis by (fastforce simp: t)
    next
      case (Inr u)
      with True pf have "process_files env dir tr (f # files) = process_files env dir tr1 files"
        by simp
      with Cons.IH [of tr1] 1 show ?thesis by (fastforce simp: t)
    qed
  qed
qed

lemma stored_process_directory:
  assumes "ext_listdir env (tr @ [ListDir dir]) = Inr files"
  shows "set (stored (fst (process_directory env tr dir))) \<subseteq>
     set (stored tr) \<union> {(chunk_id f i, c) | f i c. f \<in> set (txt_entries dir files)}"
proof -
  obtain tr2 r where pf: "process_files env dir (tr @ [ListDir dir]) files = (tr2, r)"
    by (cases "process_files env dir (tr @ [ListDir dir]) files")
  have s0: "stored (tr @ [ListDir dir]) = stored tr" by (simp add: stored_def upserts_append)
  from stored_process_files [of env dir "tr @ [ListDir dir]" files] pf
  have "set (stored tr2) \<subseteq>
      set (stored tr) \<union> {(chunk_id f i, c) | f i c. f \<in> set (txt_entries dir files)}"
    by (simp add: s0)
  moreover have "stored (fst (process_directory env tr dir)) = stored tr2"
    using pf assms
    by (simp add: process_directory_def directory_failed_def Let_def stored_def upserts_append
        split: sum.splits)
  ultimately show ?thesis by simp
qed

text \<open>
  C8: in a walk over the listing the directory gives,
  \<^item> the entries whose suffix is not \<^verbatim>\<open>.txt\<close> add nothing: the files are processed as
    if the listing held the \<^verbatim>\<open>.txt\<close> entries only, and a listing without such an entry
    leaves the trace at the listing itself, with no read, no print and no exception;
  \<^item> the files read are, in order, \<^verbatim>\<open>.txt\<close> entries of the listing: all of them, or
    those up to the one where the handler of a file raised;
  \<^item> every upsert the walk adds stores a chunk under an id \<^verbatim>\<open>{file}-chunk-{i}\<close> of a
    \<^verbatim>\<open>.txt\<close> entry: the other entries produce no chunk;
  \<^item> when every read, print, embedding and opening of the index returns, the walk
    returns, every \<^verbatim>\<open>.txt\<close> entry is read, and the upserts added are, file after file,
    the chunks of its content under the ids \<^verbatim>\<open>{file}-chunk-{i}\<close>.
\<close>

theorem process_directory_txt_only:
  assumes "ext_listdir env (tr @ [ListDir dir]) = Inr files"
  shows "process_files env dir (tr @ [ListDir dir]) files =
           process_files env dir (tr @ [ListDir dir]) (txt_entries dir files)
       \<and> (txt_entries dir files = [] \<longrightarrow>
             process_directory env tr dir = (tr @ [ListDir dir], Inr ()))
       \<and> (\<exists>k. filter is_read (fst (process_directory env tr dir)) =
             filter is_read tr @ map (\<lambda>f. ReadFile (path_join dir f))
                                   (take k (txt_entries dir files)))
       \<and> set (stored (fst (process_directory env tr dir))) \<subseteq>
           set (stored tr) \<union> {(chunk_id f i, c) | f i c. f \<in> set (txt_entries dir files)}
       \<and> ((\<forall>h p. ext_read env (h @ [ReadFile p]) = Inr (content p))
            \<and> (\<forall>h. ext_print env h = Inr ())
            \<and> (\<forall>h. \<exists>v. ext_embed env h = Inr v) \<and> (\<forall>h. \<exists>u. ext_index env h = Inr u) \<longrightarrow>
             snd (process_directory env tr dir) = Inr ()
             \<and> filter is_read (fst (process_directory env tr dir)) =
                 filter is_read tr @ map (\<lambda>f. ReadFile (path_join dir f)) (txt_entries dir files)
             \<and> stored (fst (process_directory env tr dir)) =
                 stored tr @ concat (map (\<lambda>f. map (\<lambda>(i, chunk). (chunk_id f i, chunk))
                                    (enumerate 0 (chunk_text (content (path_join dir f)) 512)))
                               (txt_entries dir files)))"
proof (intro conjI impI)
  show "process_files env dir (tr @ [ListDir dir]) files =
      process_files env dir (tr @ [ListDir dir]) (txt_entries dir files)"
    by (rule process_files_txt_entries)
next
  assume "txt_entries dir files = []"
  then show "process_directory env tr dir = (tr @ [ListDir dir], Inr ())"
    by (simp add: process_directory_def assms process_files_no_txt)
next
  show "\<exists>k. filter is_read (fst (process_directory env tr dir)) =
      filter is_read tr @ map (\<lambda>f. ReadFile (path_join dir f)) (take k (txt_entries dir files))"
    by (rule reads_process_directory [OF assms])
next
  show "set (stored (fst (process_directory env tr dir))) \<subseteq>
      set (stored tr) \<union> {(chunk_id f i, c) | f i c. f \<in> set (txt_entries dir files)}"
    by (rule stored_process_directory [OF assms])
next
  assume a: "(\<forall>h p. ext_read env (h @ [ReadFile p]) = Inr (content p))
      \<and> (\<forall>h. ext_print env h = Inr ())
      \<and> (\<forall>h. \<exists>v. ext_embed env h = Inr v) \<and> (\<forall>h. \<exists>u. ext_index env h = Inr u)"
  obtain tr2 r where pf: "process_files env dir (tr @ [ListDir dir]) files = (tr2, r)"
    by (cases "process_files env dir (tr @ [ListDir dir]) files")
  from a have 1: "\<forall>h p. ext_read env (h @ [ReadFile p]) = Inr (content p)"
    and 2: "\<forall>h. ext_print env h = Inr ()"
    and 3: "\<forall>h. \<exists>v. ext_embed env h = Inr v" and 4: "\<forall>h. \<exists>u. ext_index env h = Inr u"
    by simp_all
  from process_files_returns [OF 1 2 3 4, of dir "tr @ [ListDir dir]" files] pf
  have r: "r = Inr ()"
    and rd: "filter is_read tr2 =
        filter is_read tr @ map (\<lambda>f. ReadFile (path_join dir f)) (txt_entries dir files)"
    and st: "stored tr2 =
        stored (tr @ [ListDir dir]) @ concat (map (\<lambda>f. map (\<lambda>(i, chunk). (chunk_id f i, chunk))
                                    (enumerate 0 (chunk_text (content (path_join dir f)) 512)))
                               (txt_entries dir files))"
    by simp_all
  have pd: "process_directory env tr dir = (tr2, Inr ())"
    by (simp add: process_directory_def assms pf r)
  have s0: "stored (tr @ [ListDir dir]) = stored tr"
    by (simp add: stored_append) (simp add: stored_def)
  show "snd (process_directory env tr dir) = Inr ()" by (simp add: pd)
  show "filter is_read (fst (process_directory env tr dir)) =
      filter is_read tr @ map (\<lambda>f. ReadFile (path_join dir f)) (txt_entries dir files)"
    by (simp add: pd rd)
  show "stored (fst (process_directory env tr dir)) =
      stored tr @ concat (map (\<lambda>f. map (\<lambda>(i, chunk). (chunk_id f i, chunk))
                                    (enumerate 0 (chunk_text (content (path_join dir f)) 512)))
                               (txt_entries dir files))"
    by (simp add: pd st s0)
qed

theorem process_directory_txt_only_witness:
  "ext_listdir demo_env ([] @ [ListDir directory_path]) = Inr [str_of ''a.txt'', str_of ''b.pdf'']
   \<and> txt_entries directory_path [str_of ''a.txt'', str_of ''b.pdf''] = [str_of ''a.txt'']
   \<and> snd (process_directory demo_env [] directory_path) = Inr ()
   \<and> filter is_read (fst (process_directory demo_env [] directory_path)) =
       [ReadFile (str_of ''./documents/a.txt'')]
   \<and> stored (fst (process_directory demo_env [] directory_path)) =
       [(str_of ''a.txt-chunk-1'', str_of ''hi yo'')]"
proof -
  have h: "ext_listdir demo_env ([] @ [ListDir directory_path]) = Inr [str_of ''a.txt'', str_of ''b.pdf'']"
    by (simp add: demo_env_def)
  have ja: "path_join directory_path (str_of ''a.txt'') = str_of ''./documents/a.txt''"
    and jb: "path_join directory_path (str_of ''b.pdf'') = str_of ''./documents/b.pdf''"
    by (simp_all add: directory_path_def path_join_def slash_def str_of_def)
  have sa: "path_suffix (str_of ''./documents/a.txt'') = str_of ''.txt''"
    and sb: "path_suffix (str_of ''./documents/b.pdf'') = str_of ''.pdf''"
    by (simp_all add: path_suffix_def path_name_def slash_def dot_def str_of_def)
  have ne: "str_of ''.pdf'' \<noteq> str_of ''.txt''" by (simp add: str_of_def)
  have t: "txt_entries directory_path [str_of ''a.txt'', str_of ''b.pdf''] = [str_of ''a.txt'']"
    by (simp add: txt_entries_def ja jb sa sb ne)
  have c: "chunk_text (str_of ''hi yo'') 512 = [str_of ''hi yo'']"
    by (simp add: chunk_eval)
  have ok: "(\<forall>h p. ext_read demo_env (h @ [ReadFile p]) = Inr ((\<lambda>p. str_of ''hi yo'') p))
      \<and> (\<forall>h. ext_print demo_env h = Inr ())
      \<and> (\<forall>h. \<exists>v. ext_embed demo_env h = Inr v) \<and> (\<forall>h. \<exists>u. ext_index demo_env h = Inr u)"
    by (simp add: demo_env_def)
  note inst = process_directory_txt_only [OF h, of "\<lambda>p. str_of ''hi yo''"]
  from mp [OF conjunct2 [OF conjunct2 [OF conjunct2 [OF conjunct2 [OF inst]]]] ok]
  have "snd (process_directory demo_env [] directory_path) = Inr ()
      \<and> filter is_read (fst (process_directory demo_env [] directory_path)) =
          [ReadFile (str_of ''./documents/a.txt'')]
      \<and> stored (fst (process_directory demo_env [] directory_path)) =
          [(str_of ''a.txt-chunk-1'', str_of ''hi yo'')]"
    by (simp add: t ja c stored_def chunk_id_def str_nat_digit) (simp add: str_of_def)
  with h t show ?thesis by simp
qed

end
